theory Spec2Isabelle
  imports Complex_Main
begin

section \<open>Data model of the sketches\<close>

text \<open>
  A vertex is the JavaScript pair \<^verbatim>\<open>[x, y]\<close> (\<^verbatim>\<open>{x, y}\<close> in the sketch with the
  capitalised classes). Vertices are never changed in place, only read and newly created, so
  they are values. Coordinates are JavaScript numbers, here idealised as reals.

  Arrays of vertices are mutable and can be shared, so they live in a store: a reference is
  a natural number, \<open>arrays s a\<close> is the content of the array behind reference \<open>a\<close>, and
  \<open>next_ref s\<close> is the first reference not yet handed out by an array literal.
\<close>

type_synonym vertex = "real \<times> real"

record world =
  arrays :: "nat \<Rightarrow> vertex list"
  next_ref :: nat
  draws :: nat
  brushColor :: string

text \<open>
  An object of class \<^verbatim>\<open>brush\<close>: \<open>vertices\<close> is the reference stored by the constructor,
  \<open>newVertices\<close> is an array no other object ever sees (a value here), and the colour is
  the brush colour with its alpha.
\<close>

record brush =
  vertices :: nat
  newVertices :: "vertex list"
  colour :: string
  alpha :: int

datatype js_error = TypeError

subsection \<open>Random numbers\<close>

text \<open>
  \<^verbatim>\<open>random\<close> is the p5.js library function. The raw draws of its generator are the
  parameter \<open>rnd\<close> (draw number \<open>k\<close> is \<open>rnd k\<close>, a number from 0 up to but not including
  1), and \<open>draws s\<close> counts the draws made so far. \<^verbatim>\<open>random(lo, hi)\<close> scales one raw draw
  to the range from \<open>lo\<close> up to \<open>hi\<close>, \<^verbatim>\<open>random(hi)\<close> to the range from 0 up to \<open>hi\<close>.
\<close>

definition scale2 :: "real \<Rightarrow> real \<Rightarrow> real \<Rightarrow> real" where
  "scale2 lo hi u = (if lo > hi then u * (lo - hi) + hi else u * (hi - lo) + lo)"

definition random2 :: "(nat \<Rightarrow> real) \<Rightarrow> real \<Rightarrow> real \<Rightarrow> world \<Rightarrow> real \<times> world" where
  "random2 rnd lo hi s = (scale2 lo hi (rnd (draws s)), s\<lparr>draws := draws s + 1\<rparr>)"

definition random1 :: "(nat \<Rightarrow> real) \<Rightarrow> real \<Rightarrow> world \<Rightarrow> real \<times> world" where
  "random1 rnd hi s = (rnd (draws s) * hi, s\<lparr>draws := draws s + 1\<rparr>)"

section \<open>Class brush\<close>

text \<open>
  \<^verbatim>\<open>constructor(v) { this.vertices = v; this.newVertices = []; this.color = color(brushColor);
  this.color.setAlpha(2); }\<close>
\<close>

definition brush_new :: "nat \<Rightarrow> world \<Rightarrow> brush" where
  "brush_new v s = \<lparr>vertices = v, newVertices = [], colour = brushColor s, alpha = 2\<rparr>"

text \<open>\<^verbatim>\<open>xs.splice(1, 0, x)\<close>: insert \<open>x\<close> at index 1, or at the end of an empty array.\<close>

fun splice1 :: "'a \<Rightarrow> 'a list \<Rightarrow> 'a list" where
  "splice1 x [] = [x]"
| "splice1 x (v # vs) = v # x # vs"

text \<open>
  The first loop of \<^verbatim>\<open>deform\<close>: for \<open>i\<close> from 0 while \<open>i < vertices.length - 1\<close>, push
  the midpoint of vertices \<open>i\<close> and \<open>i + 1\<close>, displaced by two random offsets (first the
  one for x, then the one for y).
\<close>

function midpoint_loop ::
  "(nat \<Rightarrow> real) \<Rightarrow> real \<Rightarrow> vertex list \<Rightarrow> nat \<Rightarrow> vertex list \<Rightarrow> world \<Rightarrow> vertex list \<times> world" where
  "midpoint_loop rnd r vs i nv s =
     (if int i < int (length vs) - 1 then
        (let (rx, s1) = random2 rnd (- r) r s;
             x = (fst (vs ! i) + fst (vs ! (i + 1))) / 2 + rx;
             (ry, s2) = random2 rnd (- r) r s1;
             y = (snd (vs ! i) + snd (vs ! (i + 1))) / 2 + ry
         in midpoint_loop rnd r vs (i + 1) (nv @ [(x, y)]) s2)
      else (nv, s))"
  by pat_completeness auto
termination
  by (relation "measure (\<lambda>(rnd, r, vs, i, nv, s). length vs - i)") auto

text \<open>The last loop of \<^verbatim>\<open>deform\<close>: splice every new vertex in at index 1, in order.\<close>

function splice_loop :: "vertex list \<Rightarrow> nat \<Rightarrow> vertex list \<Rightarrow> vertex list" where
  "splice_loop nv i vs =
     (if i < length nv then splice_loop nv (i + 1) (splice1 (nv ! i) vs) else vs)"
  by pat_completeness auto
termination
  by (relation "measure (\<lambda>(nv, i, vs). length nv - i)") auto

text \<open>
  \<^verbatim>\<open>deform()\<close>. On an empty vertex array the first loop does not run and
  \<^verbatim>\<open>this.vertices[0][0]\<close> reads a property of \<^verbatim>\<open>undefined\<close>, which throws a TypeError
  before anything is changed.
\<close>

definition deform :: "(nat \<Rightarrow> real) \<Rightarrow> real \<Rightarrow> brush \<Rightarrow> world \<Rightarrow> js_error + (brush \<times> world)" where
  "deform rnd r b s =
     (let vs = arrays s (vertices b);
          (nv, s1) = midpoint_loop rnd r vs 0 (newVertices b) s
      in if vs = [] then Inl TypeError
         else
           (let (rx, s2) = random2 rnd (- r) r s1;
                x = (fst (vs ! 0) + fst (vs ! (length vs - 1))) / 2 + rx;
                (ry, s3) = random2 rnd (- r) r s2;
                y = (snd (vs ! 0) + snd (vs ! (length vs - 1))) / 2 + ry;
                nv' = nv @ [(x, y)];
                vs' = splice_loop nv' 0 vs
            in Inr (b\<lparr>newVertices := []\<rparr>, s3\<lparr>arrays := (arrays s3)(vertices b := vs')\<rparr>)))"

text \<open>Calling \<^verbatim>\<open>deform()\<close> \<open>k\<close> times in a row on one brush.\<close>

fun deform_times ::
  "(nat \<Rightarrow> real) \<Rightarrow> real \<Rightarrow> nat \<Rightarrow> brush \<Rightarrow> world \<Rightarrow> js_error + (brush \<times> world)" where
  "deform_times rnd r 0 b s = Inr (b, s)"
| "deform_times rnd r (Suc k) b s =
     (case deform rnd r b s of
        Inl e \<Rightarrow> Inl e
      | Inr (b', s') \<Rightarrow> deform_times rnd r k b' s')"

text \<open>
  The points one call of \<^verbatim>\<open>deform\<close> generates, as the specification words them: point
  number \<open>j\<close> is the midpoint of the pair \<open>(v\<^sub>j, v\<^sub>j\<^sub>+\<^sub>1)\<close>, the last one the midpoint of
  the wrap-around pair of \<open>v\<^sub>0\<close> and \<open>v\<^sub>n\<^sub>-\<^sub>1\<close>, each displaced by the random offset made of
  draws \<open>d + 2j\<close> and \<open>d + 2j + 1\<close>, where \<open>d\<close> counts the draws before the call.
\<close>

definition specified_vertex :: "(nat \<Rightarrow> real) \<Rightarrow> real \<Rightarrow> nat \<Rightarrow> vertex list \<Rightarrow> nat \<Rightarrow> vertex" where
  "specified_vertex rnd r d vs j =
     (let a = (if j + 1 < length vs then vs ! j else vs ! 0);
          b = (if j + 1 < length vs then vs ! (j + 1) else vs ! (length vs - 1))
      in ((fst a + fst b) / 2 + scale2 (- r) r (rnd (d + 2 * j)),
          (snd a + snd b) / 2 + scale2 (- r) r (rnd (d + 2 * j + 1))))"

text \<open>The sequence the specification describes as the result of one round.\<close>

definition specified_round :: "(nat \<Rightarrow> real) \<Rightarrow> real \<Rightarrow> nat \<Rightarrow> vertex list \<Rightarrow> vertex list" where
  "specified_round rnd r d vs = hd vs # rev (map (specified_vertex rnd r d vs) [0..<length vs]) @ tl vs"

text \<open>
  A store as \<^verbatim>\<open>paint(100, 100)\<close> leaves it after evaluating the array literal
  \<^verbatim>\<open>[ [x, y] ]\<close>: one array, behind reference 0, holding the anchor point.
\<close>

definition anchor_world :: world where
  "anchor_world = \<lparr>arrays = (\<lambda>_. [])(0 := [(100, 100)]), next_ref = 1, draws = 0,
     brushColor = ''brown''\<rparr>"

section \<open>Class strokes\<close>

text \<open>
  The repository holds four sketches with the same two classes. They differ in three places:
  the number of layers, the alpha of a layer and the number of rounds of the bundle's
  \<^verbatim>\<open>deform\<close>.
    \<^item> \<open>Sketch_js\<close> is \<^verbatim>\<open>src/sketch.js\<close>: \<^verbatim>\<open>this.total = 25\<close>;
    \<^item> \<open>Part_000\<close> is \<^verbatim>\<open>src/unnamed/part_000\<close> and the second sketch of
      \<^verbatim>\<open>src/unnamed/part_001\<close>: \<^verbatim>\<open>this.total = random(10, 30)\<close>;
    \<^item> \<open>Part_001\<close> is the first sketch of \<^verbatim>\<open>src/unnamed/part_001\<close> (classes
      \<^verbatim>\<open>Brush\<close> and \<^verbatim>\<open>Strokes\<close>): \<^verbatim>\<open>this.total = random(8, 32)\<close>, the alpha is
      \<^verbatim>\<open>round(random(1, 2))\<close> and \<^verbatim>\<open>deform\<close> runs \<^verbatim>\<open>random(8)\<close> rounds.
\<close>

datatype sketch = Sketch_js | Part_000 | Part_001

record strokes =
  total :: real
  layers :: "brush list"

text \<open>
  The constructor of \<^verbatim>\<open>Brush\<close> in \<open>Part_001\<close>:
  \<^verbatim>\<open>this.vertices = v; this.newVertices = []; this.color = color(brushColor);
  this.color.setAlpha(round(random(1, 2)));\<close>
\<close>

definition Brush_new :: "(nat \<Rightarrow> real) \<Rightarrow> nat \<Rightarrow> world \<Rightarrow> brush \<times> world" where
  "Brush_new rnd v s =
     (let (u, s') = random2 rnd 1 2 s
      in (\<lparr>vertices = v, newVertices = [], colour = brushColor s, alpha = round u\<rparr>, s'))"

definition new_brush :: "sketch \<Rightarrow> (nat \<Rightarrow> real) \<Rightarrow> nat \<Rightarrow> world \<Rightarrow> brush \<times> world" where
  "new_brush sk rnd v s = (case sk of Part_001 \<Rightarrow> Brush_new rnd v s | _ \<Rightarrow> (brush_new v s, s))"

text \<open>
  An array that was built locally is stored behind a fresh reference when it is handed to
  another object.
\<close>

definition new_array :: "vertex list \<Rightarrow> world \<Rightarrow> nat \<times> world" where
  "new_array vs s =
     (next_ref s, s\<lparr>arrays := (arrays s)(next_ref s := vs), next_ref := next_ref s + 1\<rparr>)"

text \<open>
  The inner loop of the constructor: \<^verbatim>\<open>vertices.push(brushObject.vertices[j])\<close> for every
  index \<open>j\<close> of the source array. The array \<^verbatim>\<open>vertices\<close> is a new local one, so the source
  array \<open>src\<close> does not change while the loop runs.
\<close>

function copy_loop :: "vertex list \<Rightarrow> nat \<Rightarrow> vertex list \<Rightarrow> vertex list" where
  "copy_loop src j acc =
     (if j < length src then copy_loop src (j + 1) (acc @ [src ! j]) else acc)"
  by pat_completeness auto
termination
  by (relation "measure (\<lambda>(src, j, acc). length src - j)") auto

text \<open>
  The outer loop of the constructor: for \<open>i\<close> from 0 while \<open>i < this.total\<close>, copy the
  vertices of \<^verbatim>\<open>brushObject\<close> (an object whose \<open>vertices\<close> is the reference \<open>bo\<close>) into
  a new array and push a new brush on it.
\<close>

function layers_loop ::
  "sketch \<Rightarrow> (nat \<Rightarrow> real) \<Rightarrow> real \<Rightarrow> nat \<Rightarrow> nat \<Rightarrow> brush list \<Rightarrow> world \<Rightarrow> brush list \<times> world" where
  "layers_loop sk rnd tot bo i ls s =
     (if real i < tot then
        (let (a, s1) = new_array (copy_loop (arrays s bo) 0 []) s;
             (b, s2) = new_brush sk rnd a s1
         in layers_loop sk rnd tot bo (i + 1) (ls @ [b]) s2)
      else (ls, s))"
  by pat_completeness auto
termination
proof (relation "measure (\<lambda>(sk, rnd, tot, bo, i, ls, s). nat \<lceil>tot\<rceil> - i)")
  show "wf (measure (\<lambda>(sk, rnd, tot, bo, i, ls, s). nat \<lceil>tot\<rceil> - i))"
    by simp
next
  fix sk :: sketch and rnd :: "nat \<Rightarrow> real" and tot :: real and bo i :: nat
    and ls :: "brush list" and s s1 s2 :: world and x :: "nat \<times> world"
    and a :: nat and y :: "brush \<times> world" and b :: brush
  assume "real i < tot"
  then have "i < nat \<lceil>tot\<rceil>"
    by linarith
  then show "((sk, rnd, tot, bo, i + 1, ls @ [b], s2), (sk, rnd, tot, bo, i, ls, s))
      \<in> measure (\<lambda>(sk, rnd, tot, bo, i, ls, s). nat \<lceil>tot\<rceil> - i)"
    by simp
qed

text \<open>\<^verbatim>\<open>new strokes(brushObject)\<close>, where \<open>bo\<close> is \<^verbatim>\<open>brushObject.vertices\<close>.\<close>

definition strokes_new :: "sketch \<Rightarrow> (nat \<Rightarrow> real) \<Rightarrow> brush \<Rightarrow> world \<Rightarrow> strokes \<times> world" where
  "strokes_new sk rnd brushObject s =
     (let (tot, s0) = (case sk of
                         Sketch_js \<Rightarrow> (25, s)
                       | Part_000 \<Rightarrow> random2 rnd 10 30 s
                       | Part_001 \<Rightarrow> random2 rnd 8 32 s);
          (ls, s') = layers_loop sk rnd tot (vertices brushObject) 0 [] s0
      in (\<lparr>total = tot, layers = ls\<rparr>, s'))"

text \<open>
  The loop \<^verbatim>\<open>for(let i = 0; i < this.total; i++) this.layers[i].deform();\<close>. An index
  past the end of \<^verbatim>\<open>layers\<close> reads \<^verbatim>\<open>undefined\<close>, whose \<^verbatim>\<open>deform\<close> cannot be called.
\<close>

function deform_layers ::
  "(nat \<Rightarrow> real) \<Rightarrow> real \<Rightarrow> real \<Rightarrow> nat \<Rightarrow> brush list \<Rightarrow> world \<Rightarrow> js_error + (brush list \<times> world)" where
  "deform_layers rnd r tot i ls s =
     (if real i < tot then
        (if i < length ls then
           (case deform rnd r (ls ! i) s of
              Inl e \<Rightarrow> Inl e
            | Inr (b', s') \<Rightarrow> deform_layers rnd r tot (i + 1) (ls[i := b']) s')
         else Inl TypeError)
      else Inr (ls, s))"
  by pat_completeness auto
termination
proof (relation "measure (\<lambda>(rnd, r, tot, i, ls, s). nat \<lceil>tot\<rceil> - i)")
  show "wf (measure (\<lambda>(rnd, r, tot, i, ls, s). nat \<lceil>tot\<rceil> - i))"
    by simp
next
  fix rnd :: "nat \<Rightarrow> real" and r tot :: real and i :: nat and ls :: "brush list"
    and s s' :: world and b' :: brush and x :: "brush \<times> world"
  assume "real i < tot"
  then have "i < nat \<lceil>tot\<rceil>"
    by linarith
  then show "((rnd, r, tot, i + 1, ls[i := b'], s'), (rnd, r, tot, i, ls, s))
      \<in> measure (\<lambda>(rnd, r, tot, i, ls, s). nat \<lceil>tot\<rceil> - i)"
    by simp
qed

text \<open>One pass over all layers: the whole of \<^verbatim>\<open>strokes.deform\<close> in \<open>Sketch_js\<close> and \<open>Part_000\<close>.\<close>

definition deform_pass :: "(nat \<Rightarrow> real) \<Rightarrow> real \<Rightarrow> strokes \<Rightarrow> world \<Rightarrow> js_error + (strokes \<times> world)" where
  "deform_pass rnd r w s =
     (case deform_layers rnd r (total w) 0 (layers w) s of
        Inl e \<Rightarrow> Inl e
      | Inr (ls, s') \<Rightarrow> Inr (w\<lparr>layers := ls\<rparr>, s'))"

text \<open>
  The outer loop of \<^verbatim>\<open>Strokes.deform\<close> in \<open>Part_001\<close>:
  \<^verbatim>\<open>for(let i = random(8); i > 0; i--)\<close> around the pass over all layers.
\<close>

function rounds_loop ::
  "(nat \<Rightarrow> real) \<Rightarrow> real \<Rightarrow> real \<Rightarrow> strokes \<Rightarrow> world \<Rightarrow> js_error + (strokes \<times> world)" where
  "rounds_loop rnd r i w s =
     (if i > 0 then
        (case deform_pass rnd r w s of
           Inl e \<Rightarrow> Inl e
         | Inr (w', s') \<Rightarrow> rounds_loop rnd r (i - 1) w' s')
      else Inr (w, s))"
  by pat_completeness auto
termination
proof (relation "measure (\<lambda>(rnd, r, i, w, s). nat \<lceil>i\<rceil>)")
  show "wf (measure (\<lambda>(rnd, r, i, w, s). nat \<lceil>i\<rceil>))"
    by simp
next
  fix rnd :: "nat \<Rightarrow> real" and r i :: real and w w' :: strokes and s s' :: world
    and x :: "strokes \<times> world"
  assume "0 < i"
  then have "nat \<lceil>i - 1\<rceil> < nat \<lceil>i\<rceil>"
    by linarith
  then show "((rnd, r, i - 1, w', s'), (rnd, r, i, w, s)) \<in> measure (\<lambda>(rnd, r, i, w, s). nat \<lceil>i\<rceil>)"
    by simp
qed

text \<open>\<^verbatim>\<open>strokes.deform()\<close> of each sketch.\<close>

definition strokes_deform ::
  "sketch \<Rightarrow> (nat \<Rightarrow> real) \<Rightarrow> real \<Rightarrow> strokes \<Rightarrow> world \<Rightarrow> js_error + (strokes \<times> world)" where
  "strokes_deform sk rnd r w s =
     (case sk of
        Part_001 \<Rightarrow> (let (i, s0) = random1 rnd 8 s in rounds_loop rnd r i w s0)
      | _ \<Rightarrow> deform_pass rnd r w s)"

text \<open>\<open>m\<close> calls of \<^verbatim>\<open>strokes.deform()\<close> in a row on one bundle.\<close>

fun strokes_deform_times ::
  "sketch \<Rightarrow> (nat \<Rightarrow> real) \<Rightarrow> real \<Rightarrow> nat \<Rightarrow> strokes \<Rightarrow> world \<Rightarrow> js_error + (strokes \<times> world)" where
  "strokes_deform_times sk rnd r 0 w s = Inr (w, s)"
| "strokes_deform_times sk rnd r (Suc m) w s =
     (case strokes_deform sk rnd r w s of
        Inl e \<Rightarrow> Inl e
      | Inr (w', s') \<Rightarrow> strokes_deform_times sk rnd r m w' s')"

text \<open>
  What the proofs keep track of for a bundle: its layers are distinct arrays, there are
  as many layers as the loops over \<open>i < this.total\<close> visit, no layer has pending new
  vertices, and every layer holds \<open>n\<close> vertices.
\<close>

definition bundle_ok :: "nat \<Rightarrow> strokes \<Rightarrow> world \<Rightarrow> bool" where
  "bundle_ok n w s \<longleftrightarrow>
     distinct (map vertices (layers w)) \<and>
     length (layers w) = nat \<lceil>total w\<rceil> \<and>
     (\<forall>b \<in> set (layers w). newVertices b = [] \<and> length (arrays s (vertices b)) = n)"

text \<open>A generator whose every raw draw is \<open>3/4\<close>, and the bundle \<open>Sketch_js\<close> builds on the anchor.\<close>

definition steady :: "nat \<Rightarrow> real" where
  "steady k = 3 / 4"

definition anchor_bundle :: "strokes \<times> world" where
  "anchor_bundle = strokes_new Sketch_js steady (brush_new 0 anchor_world) anchor_world"

section \<open>Painting\<close>

text \<open>The loop \<^verbatim>\<open>for(let i = 0; i < 5; i++) w.deform();\<close> of \<^verbatim>\<open>paint\<close>.\<close>

function paint_loop ::
  "sketch \<Rightarrow> (nat \<Rightarrow> real) \<Rightarrow> real \<Rightarrow> nat \<Rightarrow> strokes \<Rightarrow> world \<Rightarrow> js_error + (strokes \<times> world)" where
  "paint_loop sk rnd r i w s =
     (if i < 5 then
        (case strokes_deform sk rnd r w s of
           Inl e \<Rightarrow> Inl e
         | Inr (w', s') \<Rightarrow> paint_loop sk rnd r (i + 1) w' s')
      else Inr (w, s))"
  by pat_completeness auto
termination
  by (relation "measure (\<lambda>(sk, rnd, r, i, w, s). 5 - i)") auto

text \<open>
  \<^verbatim>\<open>paint\<close>, up to the call of \<^verbatim>\<open>display\<close> (which draws the layers and changes none):
  in \<open>Sketch_js\<close> and \<open>Part_000\<close>
  \<^verbatim>\<open>let w = new strokes(new brush([ [x, y] ])), t = random(1, 5);\<close> and five calls of
  \<^verbatim>\<open>w.deform()\<close>; in \<open>Part_001\<close> \<^verbatim>\<open>let p = new Strokes(new Brush([v])); p.deform();\<close>.
  The result is the bundle that is displayed.
\<close>

definition paint ::
  "sketch \<Rightarrow> (nat \<Rightarrow> real) \<Rightarrow> real \<Rightarrow> vertex \<Rightarrow> world \<Rightarrow> js_error + (strokes \<times> world)" where
  "paint sk rnd r v s =
     (let (a, s1) = new_array [v] s;
          (b, s2) = new_brush sk rnd a s1;
          (w, s3) = strokes_new sk rnd b s2
      in case sk of
           Part_001 \<Rightarrow> strokes_deform sk rnd r w s3
         | _ \<Rightarrow> (let (t, s4) = random2 rnd 1 5 s3 in paint_loop sk rnd r 0 w s4))"

text \<open>
  The number of passes over the layers that one call of \<^verbatim>\<open>strokes.deform()\<close> makes in
  state \<open>s\<close>: one, or in \<open>Part_001\<close> the number of iterations of
  \<^verbatim>\<open>for(let i = random(8); i > 0; i--)\<close>.
\<close>

definition rounds_of :: "sketch \<Rightarrow> (nat \<Rightarrow> real) \<Rightarrow> world \<Rightarrow> nat" where
  "rounds_of sk rnd s = (case sk of Part_001 \<Rightarrow> nat \<lceil>rnd (draws s) * 8\<rceil> | _ \<Rightarrow> 1)"

text \<open>The anchor world after one call of \<^verbatim>\<open>deform()\<close> under the generator \<open>steady\<close>.\<close>

definition anchor_world_deformed :: world where
  "anchor_world_deformed =
     anchor_world\<lparr>draws := 2, arrays := (arrays anchor_world)(0 := [(100, 100), (116, 116)])\<rparr>"

text \<open>A generator whose every raw draw is \<open>1/40\<close>, and the bundle \<open>Part_000\<close> builds with it.\<close>

definition low_draw :: "nat \<Rightarrow> real" where
  "low_draw k = 1 / 40"

definition low_bundle :: "strokes \<times> world" where
  "low_bundle = strokes_new Part_000 low_draw (brush_new 0 anchor_world) anchor_world"

section \<open>The pitch detector\<close>

text \<open>
  \<^verbatim>\<open>acf2plus\<close> is the same function in \<^verbatim>\<open>src/unnamed/part_000\<close> and in the first sketch of
  \<^verbatim>\<open>src/unnamed/part_001\<close>. Samples are JavaScript numbers, that is doubles, here reals.
  The silence test at its start decides by a comparison at a threshold, so it is modelled
  with the rounding of every operation to a double. The later stages (trimming,
  autocorrelation, peak search, interpolation) are idealised: their sums and quotients are
  those of the reals. What is not a real is written out: an index outside an array reads
  \<^verbatim>\<open>undefined\<close>, arithmetic on \<^verbatim>\<open>undefined\<close> gives \<^verbatim>\<open>NaN\<close>, every comparison with \<^verbatim>\<open>NaN\<close> or
  \<^verbatim>\<open>undefined\<close> is false, \<^verbatim>\<open>NaN\<close> is falsy, and a division by zero gives an infinity.
\<close>

datatype js_number = Number real | Infinity | Minus_Infinity | NaN

datatype js_value = JS_false | JS_number js_number

text \<open>\<^verbatim>\<open>xs[k]\<close> for an integer \<open>k\<close>: \<open>None\<close> is \<^verbatim>\<open>undefined\<close>.\<close>

definition at_index :: "real list \<Rightarrow> int \<Rightarrow> real option" where
  "at_index xs k = (if 0 \<le> k \<and> k < int (length xs) then Some (xs ! nat k) else None)"

text \<open>\<^verbatim>\<open>xs.slice(start, end)\<close> for integers; a negative index counts from the end.\<close>

definition js_slice :: "'a list \<Rightarrow> int \<Rightarrow> int \<Rightarrow> 'a list" where
  "js_slice xs start end =
     (let len = int (length xs);
          k = (if start < 0 then max (len + start) 0 else min start len);
          fin = (if end < 0 then max (len + end) 0 else min end len)
      in take (nat (fin - k)) (drop (nat k) xs))"

text \<open>\<^verbatim>\<open>x / y\<close> for two numbers and \<^verbatim>\<open>round\<close> (p5.js: \<^verbatim>\<open>Math.round\<close>, half up).\<close>

definition js_divide :: "real \<Rightarrow> real \<Rightarrow> js_number" where
  "js_divide x y =
     (if y \<noteq> 0 then Number (x / y)
      else if x > 0 then Infinity else if x < 0 then Minus_Infinity else NaN)"

definition js_round :: "js_number \<Rightarrow> js_number" where
  "js_round v = (case v of Number x \<Rightarrow> Number (of_int (round x)) | _ \<Rightarrow> v)"

subsection \<open>Rounding to a double\<close>

text \<open>
  The result of an arithmetic operation on doubles is the exact result rounded to the
  nearest double, a tie going to the double whose last binary digit is even. A double has
  53 binary digits; \<open>ulp x\<close> is the distance between the doubles around \<open>x\<close>, which below
  \<open>2\<^sup>-\<^sup>1\<^sup>0\<^sup>2\<^sup>2\<close> stays that of the subnormal numbers. Overflow to an infinity is not
  modelled: where the code gets \<^verbatim>\<open>Infinity\<close> the model gets a real above every double, and
  the comparison with the threshold comes out the same.
\<close>

definition rne :: "real \<Rightarrow> int" where
  "rne m =
     (let f = \<lfloor>m\<rfloor>; d = m - of_int f
      in if d < 1 / 2 then f else if d > 1 / 2 then f + 1 else if even f then f else f + 1)"

definition ulp :: "real \<Rightarrow> real" where
  "ulp x = 2 powr of_int (max \<lfloor>log 2 \<bar>x\<bar>\<rfloor> (- 1022) - 52)"

definition to_double :: "real \<Rightarrow> real" where
  "to_double x = (if x = 0 then 0 else of_int (rne (x / ulp x)) * ulp x)"

subsection \<open>The silence test\<close>

text \<open>
  The loop \<^verbatim>\<open>for(i = 0; i < buffer.length; i++) rms += buffer[i] * buffer[i];\<close> The product
  is rounded, then the sum.
\<close>

function rms_loop :: "real list \<Rightarrow> nat \<Rightarrow> real \<Rightarrow> real" where
  "rms_loop buffer i rms =
     (if i < length buffer
      then rms_loop buffer (i + 1) (to_double (rms + to_double (buffer ! i * buffer ! i)))
      else rms)"
  by pat_completeness auto
termination
  by (relation "measure (\<lambda>(buffer, i, rms). length buffer - i)") auto

text \<open>
  \<^verbatim>\<open>rms = Math.sqrt(rms / buffer.length);\<close> The quotient is rounded, then the square root.
\<close>

definition computed_rms :: "real list \<Rightarrow> real" where
  "computed_rms buffer =
     to_double (sqrt (to_double (rms_loop buffer 0 0 / real (length buffer))))"

text \<open>
  \<^verbatim>\<open>if(rms < 0.01) return false;\<close> The literal \<^verbatim>\<open>0.01\<close> is the double nearest to \<open>1/100\<close>.
  On an empty buffer the quotient is \<^verbatim>\<open>0 / 0\<close>, that is \<^verbatim>\<open>NaN\<close>, and the comparison is false.
\<close>

definition too_quiet :: "real list \<Rightarrow> bool" where
  "too_quiet buffer \<longleftrightarrow> buffer \<noteq> [] \<and> computed_rms buffer < to_double (1 / 100)"

subsection \<open>Trimming, autocorrelation and peak\<close>

text \<open>\<^verbatim>\<open>Math.abs(buffer[k]) < 0.2\<close>; on \<^verbatim>\<open>undefined\<close> the absolute value is \<^verbatim>\<open>NaN\<close>.\<close>

definition near_zero :: "real list \<Rightarrow> int \<Rightarrow> bool" where
  "near_zero buffer k = (case at_index buffer k of Some x \<Rightarrow> \<bar>x\<bar> < 1 / 5 | None \<Rightarrow> False)"

text \<open>
  The trimming loop, for \<open>i\<close> from 0 while \<open>i < buffer.length / 2\<close>, on the variables
  \<open>(r1, r1Found, r2, r2Found)\<close>; it stops early once both are found.
\<close>

function trim_loop :: "real list \<Rightarrow> nat \<Rightarrow> nat \<times> bool \<times> int \<times> bool \<Rightarrow> nat \<times> bool \<times> int \<times> bool" where
  "trim_loop buffer i (r1, r1Found, r2, r2Found) =
     (if real i < real (length buffer) / 2 then
        (let (r1', r1Found') =
               (if \<not> r1Found \<and> near_zero buffer (int i) then (i, True) else (r1, r1Found));
             (r2', r2Found') =
               (if \<not> r2Found \<and> near_zero buffer (int (length buffer) - int i)
                then (int (length buffer) - int i, True) else (r2, r2Found))
         in if r1Found' \<and> r2Found' then (r1', r1Found', r2', r2Found')
            else trim_loop buffer (i + 1) (r1', r1Found', r2', r2Found'))
      else (r1, r1Found, r2, r2Found))"
  by pat_completeness auto
termination
  by (relation "measure (\<lambda>(buffer, i, st). length buffer - i)") auto

text \<open>
  \<^verbatim>\<open>let r1 = 0, r1Found = false, r2 = buffer.length - 1, r2Found = false;\<close>, the loop, and
  \<^verbatim>\<open>buffer = buffer.slice(r1, r2);\<close>
\<close>

definition trim_bounds :: "real list \<Rightarrow> nat \<times> bool \<times> int \<times> bool" where
  "trim_bounds buffer = trim_loop buffer 0 (0, False, int (length buffer) - 1, False)"

definition trim :: "real list \<Rightarrow> real list" where
  "trim buffer = (case trim_bounds buffer of (r1, r1Found, r2, r2Found) \<Rightarrow> js_slice buffer (int r1) r2)"

text \<open>
  The autocorrelation: \<^verbatim>\<open>c[i] = c[i] + buffer[j] * buffer[j + i]\<close> for \<open>j\<close> from 0 while
  \<open>j < buffer.length - i\<close>, for every \<open>i\<close> from 0 while \<open>i < buffer.length\<close>, on an array
  of zeros.
\<close>

function acf_inner :: "real list \<Rightarrow> nat \<Rightarrow> nat \<Rightarrow> real \<Rightarrow> real" where
  "acf_inner buffer i j ci =
     (if int j < int (length buffer) - int i
      then acf_inner buffer i (j + 1) (ci + buffer ! j * buffer ! (j + i)) else ci)"
  by pat_completeness auto
termination
  by (relation "measure (\<lambda>(buffer, i, j, ci). length buffer - j)") auto

function acf_outer :: "real list \<Rightarrow> nat \<Rightarrow> real list \<Rightarrow> real list" where
  "acf_outer buffer i c =
     (if i < length buffer then acf_outer buffer (i + 1) (c[i := acf_inner buffer i 0 (c ! i)])
      else c)"
  by pat_completeness auto
termination
  by (relation "measure (\<lambda>(buffer, i, c). length buffer - i)") auto

definition autocorrelation :: "real list \<Rightarrow> real list" where
  "autocorrelation buffer = acf_outer buffer 0 (replicate (length buffer) 0)"

text \<open>\<^verbatim>\<open>while(c[d] > c[d + 1]) d++;\<close>\<close>

definition js_greater :: "real option \<Rightarrow> real option \<Rightarrow> bool" where
  "js_greater x y = (case (x, y) of (Some u, Some v) \<Rightarrow> u > v | _ \<Rightarrow> False)"

function first_dip :: "real list \<Rightarrow> nat \<Rightarrow> nat" where
  "first_dip c d =
     (if js_greater (at_index c (int d)) (at_index c (int d + 1)) then first_dip c (d + 1) else d)"
  by pat_completeness auto
termination
  by (relation "measure (\<lambda>(c, d). length c - d)")
    (auto simp: js_greater_def at_index_def split: if_splits)

text \<open>
  \<^verbatim>\<open>for(let i = d; i < buffer.length; i++) if(c[i] > maxVal) { maxVal = c[i]; maxPos = i; }\<close>
  on the variables \<open>(maxVal, maxPos)\<close>; \<open>c\<close> is as long as the trimmed buffer.
\<close>

function peak_loop :: "real list \<Rightarrow> nat \<Rightarrow> real \<times> int \<Rightarrow> real \<times> int" where
  "peak_loop c i (maxVal, maxPos) =
     (if i < length c then
        (if c ! i > maxVal then peak_loop c (i + 1) (c ! i, int i)
         else peak_loop c (i + 1) (maxVal, maxPos))
      else (maxVal, maxPos))"
  by pat_completeness auto
termination
  by (relation "measure (\<lambda>(c, i, st). length c - i)") auto

text \<open>\<^verbatim>\<open>let d = 0, maxVal = -1, maxPos = -1;\<close> and the two loops: the position of the peak.\<close>

definition peak_position :: "real list \<Rightarrow> int" where
  "peak_position c = snd (peak_loop c (first_dip c 0) (- 1, - 1))"

text \<open>
  The interpolation. \<open>None\<close> is \<^verbatim>\<open>NaN\<close>: \<open>a\<close> and \<open>b\<close> are numbers only if the neighbours
  they are computed from are. \<^verbatim>\<open>if(a)\<close> holds for a number other than zero.
\<close>

definition interpolate :: "real list \<Rightarrow> int \<Rightarrow> real" where
  "interpolate c maxPos =
     (let x1 = at_index c (maxPos - 1);
          x2 = at_index c maxPos;
          x3 = at_index c (maxPos + 1);
          a = (case (x1, x2, x3) of
                 (Some u, Some v, Some w) \<Rightarrow> Some ((u + w - 2 * v) / 2)
               | _ \<Rightarrow> None);
          b = (case (x1, x3) of (Some u, Some w) \<Rightarrow> Some ((w - u) / 2) | _ \<Rightarrow> None)
      in case (a, b) of
           (Some a', Some b') \<Rightarrow>
             if a' \<noteq> 0 then real_of_int maxPos - b' / (2 * a') else real_of_int maxPos
         | _ \<Rightarrow> real_of_int maxPos)"

text \<open>\<^verbatim>\<open>acf2plus(buffer)\<close>, where \<open>sampleRate\<close> is \<^verbatim>\<open>audio.sampleRate\<close>.\<close>

definition acf2plus :: "real \<Rightarrow> real list \<Rightarrow> js_value" where
  "acf2plus sampleRate buffer =
     (if too_quiet buffer then JS_false
      else
        (let c = autocorrelation (trim buffer);
             maxPos = interpolate c (peak_position c)
         in JS_number (js_round (js_divide sampleRate maxPos))))"

text \<open>
  The trimming as the specification words it: the samples below 0.2 in absolute value are
  removed from both ends.
\<close>

definition trim_as_specified :: "real list \<Rightarrow> real list" where
  "trim_as_specified buffer =
     rev (dropWhile (\<lambda>x. \<bar>x\<bar> < 1 / 5) (rev (dropWhile (\<lambda>x. \<bar>x\<bar> < 1 / 5) buffer)))"

text \<open>
  What the trimming loop knows before the iteration for \<open>i\<close>: a found \<open>r1\<close> is the first
  index of the first half with a sample below 0.2, and while none is found no index below
  \<open>i\<close> has one; a found \<open>r2\<close> is \<open>length - j\<close> for the least \<open>j\<close> of the first half whose
  sample at \<open>length - j\<close> is below 0.2, and while none is found no \<open>j\<close> below \<open>i\<close> is one.
\<close>

definition front_known :: "real list \<Rightarrow> nat \<Rightarrow> nat \<Rightarrow> bool \<Rightarrow> bool" where
  "front_known buffer i r1 r1Found \<longleftrightarrow>
     (if r1Found
      then real r1 < real (length buffer) / 2 \<and> near_zero buffer (int r1) \<and>
           (\<forall>k < r1. \<not> near_zero buffer (int k))
      else r1 = 0 \<and> (\<forall>k < i. \<not> near_zero buffer (int k)))"

definition back_known :: "real list \<Rightarrow> nat \<Rightarrow> int \<Rightarrow> bool \<Rightarrow> bool" where
  "back_known buffer i r2 r2Found \<longleftrightarrow>
     (if r2Found
      then (\<exists>j. r2 = int (length buffer) - int j \<and> real j < real (length buffer) / 2 \<and>
                near_zero buffer r2 \<and>
                (\<forall>j' < j. \<not> near_zero buffer (int (length buffer) - int j')))
      else r2 = int (length buffer) - 1 \<and>
           (\<forall>j < i. \<not> near_zero buffer (int (length buffer) - int j)))"

text \<open>
  Buffers to run the detector on: one whose ends are loud and whose second and fifth sample
  are below 0.2, one whose ends are below 0.2, one whose autocorrelation peaks at the last
  lag, a click followed by silence, and the two doubles \<^verbatim>\<open>0.009999999999999998\<close> and
  \<^verbatim>\<open>0.01\<close>, which are \<open>5764607523034234 / 2\<^sup>5\<^sup>9\<close> and \<open>5764607523034235 / 2\<^sup>5\<^sup>9\<close>.
\<close>

definition loud_ends :: "real list" where
  "loud_ends = [1 / 2, 1 / 10, 1 / 2, 1 / 2, 1 / 10, 1 / 2]"

definition quiet_ends :: "real list" where
  "quiet_ends = [1 / 10, 1 / 10, 1 / 2, 1 / 2, 1 / 10, 1 / 10]"

definition late_peak :: "real list" where
  "late_peak = [1, - 1, 1, 0]"

definition click :: "real list" where
  "click = [1, 0, 0, 0]"


section \<open>The frame loop and the mouse\<close>

text \<open>
  The part of the global state of \<^verbatim>\<open>src/sketch.js\<close> that \<^verbatim>\<open>draw\<close> and \<^verbatim>\<open>saveMouse\<close> read
  and write: the saved positions and the poses that poseNet reported last. A keypoint of a
  pose is its position \<^verbatim>\<open>(x, y)\<close> and its confidence.
\<close>

record keypoint =
  position :: vertex
  confidence :: real

record pose =
  leftWrist :: keypoint
  rightWrist :: keypoint

record ui =
  lastMouse :: vertex
  lastLeft :: vertex
  lastRight :: vertex
  poses :: "pose list"

text \<open>The call sites of \<^verbatim>\<open>paint\<close> in \<^verbatim>\<open>draw\<close>.\<close>

datatype origin = Left_wrist | Right_wrist | Mouse

text \<open>
  \<^verbatim>\<open>saveMouse()\<close> with the mouse at \<open>(mouseX, mouseY)\<close>:
  \<^verbatim>\<open>if(mouseX <= window.innerWidth && mouseY <= window.innerHeight - spacing)
  lastMouse = {x: mouseX, y: mouseY};\<close>
\<close>

definition saveMouse :: "real \<Rightarrow> real \<Rightarrow> real \<Rightarrow> vertex \<Rightarrow> ui \<Rightarrow> ui" where
  "saveMouse innerWidth innerHeight spacing mouse s =
     (if fst mouse \<le> innerWidth \<and> snd mouse \<le> innerHeight - spacing
      then s\<lparr>lastMouse := mouse\<rparr> else s)"

text \<open>
  One wrist in \<^verbatim>\<open>draw\<close>: if its confidence is above 0.60 and both its coordinates differ
  from the saved ones, save its position and paint there. \<open>saved\<close> reads and \<open>save\<close> writes
  \<^verbatim>\<open>lastLeft\<close> or \<^verbatim>\<open>lastRight\<close>.
\<close>

definition wrist ::
  "origin \<Rightarrow> keypoint \<Rightarrow> (ui \<Rightarrow> vertex) \<Rightarrow> (vertex \<Rightarrow> ui \<Rightarrow> ui) \<Rightarrow> ui \<Rightarrow> (origin \<times> vertex) list \<times> ui" where
  "wrist from k saved save s =
     (if confidence k > 6 / 10 \<and>
         fst (saved s) \<noteq> fst (position k) \<and> snd (saved s) \<noteq> snd (position k)
      then ([(from, position k)], save (position k) s)
      else ([], s))"

text \<open>
  \<^verbatim>\<open>draw()\<close>: the calls of \<^verbatim>\<open>paint\<close> it makes, in order, and the state it leaves. The loop
  over the palette at its start only sets the brush colour and moves the picker, which are
  not part of \<open>ui\<close>.
\<close>

definition draw :: "ui \<Rightarrow> (origin \<times> vertex) list \<times> ui" where
  "draw s =
     (if length (poses s) > 0 then
        (let pose = hd (poses s);
             (painted1, s1) =
               wrist Left_wrist (leftWrist pose) lastLeft (\<lambda>p t. t\<lparr>lastLeft := p\<rparr>) s;
             (painted2, s2) =
               wrist Right_wrist (rightWrist pose) lastRight (\<lambda>p t. t\<lparr>lastRight := p\<rparr>) s1
         in (painted1 @ painted2, s2))
      else if fst (lastMouse s) > 0 \<and> snd (lastMouse s) > 0 then
        ([(Mouse, lastMouse s)], s\<lparr>lastMouse := (0, 0)\<rparr>)
      else ([], s))"

text \<open>
  A run of frames with no further mouse event: before each frame poseNet may have reported
  new poses (\<^verbatim>\<open>poses = results\<close>), then \<^verbatim>\<open>draw\<close> runs.
\<close>

fun frames :: "pose list list \<Rightarrow> ui \<Rightarrow> (origin \<times> vertex) list \<times> ui" where
  "frames [] s = ([], s)"
| "frames (reported # rest) s =
     (let (painted, s1) = draw (s\<lparr>poses := reported\<rparr>);
          (later, s2) = frames rest s1
      in (painted @ later, s2))"

text \<open>The state of the sketch when it starts.\<close>

definition initial_ui :: ui where
  "initial_ui = \<lparr>lastMouse = (0, 0), lastLeft = (0, 0), lastRight = (0, 0), poses = []\<rparr>"

section \<open>Properties of deform\<close>

declare midpoint_loop.simps [simp del] splice_loop.simps [simp del]

lemma splice_loop_eq:
  "vs \<noteq> [] \<Longrightarrow> i \<le> length nv \<Longrightarrow> splice_loop nv i vs = hd vs # rev (drop i nv) @ tl vs"
proof (induction nv i vs rule: splice_loop.induct)
  case (1 nv i vs)
  show ?case
  proof (cases "i < length nv")
    case True
    obtain v vs' where vs: "vs = v # vs'" using "1.prems"(1) by (cases vs) auto
    have "splice_loop nv i vs = splice_loop nv (i + 1) (splice1 (nv ! i) vs)"
      using True by (subst splice_loop.simps) simp
    also have "\<dots> = hd (splice1 (nv ! i) vs) # rev (drop (i + 1) nv) @ tl (splice1 (nv ! i) vs)"
      using "1.IH" [OF True] True vs by simp
    also have "\<dots> = hd vs # rev (drop i nv) @ tl vs"
      using True vs by (simp add: Cons_nth_drop_Suc [symmetric])
    finally show ?thesis .
  next
    case False
    with "1.prems" have "i = length nv" by simp
    with "1.prems"(1) show ?thesis by (subst splice_loop.simps) simp
  qed
qed

lemma midpoint_loop_eq:
  "i + 1 \<le> length vs \<Longrightarrow> draws s = d + 2 * i \<Longrightarrow>
   midpoint_loop rnd r vs i nv s =
     (nv @ map (specified_vertex rnd r d vs) [i..<length vs - 1],
      s\<lparr>draws := d + 2 * (length vs - 1)\<rparr>)"
proof (induction "length vs - 1 - i" arbitrary: i nv s)
  case 0
  then have "i = length vs - 1" by simp
  then show ?case using 0 by (subst midpoint_loop.simps) simp
next
  case (Suc k)
  then have lt: "i + 1 < length vs" by simp
  define s2 where "s2 = s\<lparr>draws := draws s + 2\<rparr>"
  have step: "midpoint_loop rnd r vs i nv s =
      midpoint_loop rnd r vs (i + 1) (nv @ [specified_vertex rnd r d vs i]) s2"
    using lt Suc.prems(2)
    by (subst midpoint_loop.simps) (simp add: random2_def specified_vertex_def Let_def s2_def)
  have "midpoint_loop rnd r vs (i + 1) (nv @ [specified_vertex rnd r d vs i]) s2 =
      ((nv @ [specified_vertex rnd r d vs i]) @ map (specified_vertex rnd r d vs) [i + 1..<length vs - 1],
       s2\<lparr>draws := d + 2 * (length vs - 1)\<rparr>)"
    using Suc.hyps(2) lt Suc.prems(2) by (intro Suc.hyps(1)) (simp_all add: s2_def)
  moreover have "[i..<length vs - 1] = i # [i + 1..<length vs - 1]"
    using lt by (simp add: upt_conv_Cons)
  ultimately show ?case using step by (simp add: s2_def)
qed


lemma length_specified_round: "vs \<noteq> [] \<Longrightarrow> length (specified_round rnd r d vs) = 2 * length vs"
  by (cases vs) (simp_all add: specified_round_def)

lemma deform_general:
  assumes "arrays s (vertices b) = vs" and "vs \<noteq> []"
  shows "deform rnd r b s =
    Inr (b\<lparr>newVertices := []\<rparr>,
         s\<lparr>draws := draws s + 2 * length vs,
           arrays := (arrays s)(vertices b :=
             hd vs # rev (newVertices b @ map (specified_vertex rnd r (draws s) vs) [0..<length vs])
               @ tl vs)\<rparr>)"
proof -
  define n where "n = length vs"
  define pend where "pend = newVertices b"
  have n: "1 \<le> n" using assms(2) by (cases vs) (simp_all add: n_def)
  define s1 where "s1 = s\<lparr>draws := draws s + 2 * (n - 1)\<rparr>"
  have loop: "midpoint_loop rnd r vs 0 pend s =
      (pend @ map (specified_vertex rnd r (draws s) vs) [0..<n - 1], s1)"
    using midpoint_loop_eq [of 0 vs s "draws s" rnd r pend] n by (simp add: n_def s1_def)
  have last: "specified_vertex rnd r (draws s) vs (n - 1) =
     ((fst (vs ! 0) + fst (vs ! (n - 1))) / 2 + scale2 (- r) r (rnd (draws s1)),
      (snd (vs ! 0) + snd (vs ! (n - 1))) / 2 + scale2 (- r) r (rnd (draws s1 + 1)))"
  proof -
    have "\<not> (n - 1 + 1 < length vs)" using n by (simp add: n_def)
    moreover have "draws s + 2 * (n - 1) + 1 = Suc (draws s + 2 * (n - 1))" by simp
    ultimately show ?thesis
      unfolding specified_vertex_def Let_def s1_def n_def [symmetric] by simp
  qed
  have upt: "[0..<n] = [0..<n - 1] @ [n - 1]"
    using n by (metis Suc_diff_1 less_eq_Suc_le One_nat_def upt_Suc_append zero_le)
  have nv: "map (specified_vertex rnd r (draws s) vs) [0..<n - 1] @ [specified_vertex rnd r (draws s) vs (n - 1)]
      = map (specified_vertex rnd r (draws s) vs) [0..<n]"
  proof -
    have "map (specified_vertex rnd r (draws s) vs) [0..<n] =
        map (specified_vertex rnd r (draws s) vs) ([0..<n - 1] @ [n - 1])"
      using upt by simp
    then show ?thesis by simp
  qed
  have spl: "splice_loop (pend @ map (specified_vertex rnd r (draws s) vs) [0..<n]) 0 vs =
      hd vs # rev (pend @ map (specified_vertex rnd r (draws s) vs) [0..<n]) @ tl vs"
    using splice_loop_eq [OF assms(2), of 0] by simp
  have last': "((fst (vs ! 0) + fst (vs ! (n - Suc 0))) / 2 +
        scale2 (- r) r (rnd (draws s + 2 * (n - Suc 0))),
       (snd (vs ! 0) + snd (vs ! (n - Suc 0))) / 2 +
        scale2 (- r) r (rnd (Suc (draws s + 2 * (n - Suc 0))))) =
      specified_vertex rnd r (draws s) vs (n - Suc 0)"
    using last by (simp add: s1_def)
  have d: "Suc (Suc (draws s + 2 * (n - Suc 0))) = draws s + 2 * n" using n by simp
  have nv': "map (specified_vertex rnd r (draws s) vs) [0..<n - Suc 0] @
      [specified_vertex rnd r (draws s) vs (n - Suc 0)] = map (specified_vertex rnd r (draws s) vs) [0..<n]"
    using nv by simp
  have spl': "splice_loop (pend @ map (specified_vertex rnd r (draws s) vs) [0..<n - Suc 0] @
        [specified_vertex rnd r (draws s) vs (n - Suc 0)]) 0 vs =
      hd vs # rev (pend @ map (specified_vertex rnd r (draws s) vs) [0..<n]) @ tl vs"
    using spl nv' by simp
  show ?thesis
    unfolding deform_def assms(1) pend_def [symmetric] loop Let_def prod.case random2_def
    using assms(2)
    by (simp add: n_def [symmetric] s1_def last' spl' d del: rev_append)
qed

lemma deform_empty: "arrays s (vertices b) = [] \<Longrightarrow> deform rnd r b s = Inl TypeError"
  by (simp add: deform_def Let_def split: prod.splits)

lemma deform_eq:
  assumes "arrays s (vertices b) = vs" and "vs \<noteq> []" and "newVertices b = []"
  shows "deform rnd r b s =
    Inr (b, s\<lparr>draws := draws s + 2 * length vs,
               arrays := (arrays s)(vertices b := specified_round rnd r (draws s) vs)\<rparr>)"
proof -
  have "b\<lparr>newVertices := []\<rparr> = b" using assms(3) by simp
  then show ?thesis
    using deform_general [OF assms(1,2), of rnd r] assms(3) by (simp add: specified_round_def)
qed

lemma deform_frame:
  assumes "deform rnd r b t = Inr (b', t')" and "a \<noteq> vertices b"
  shows "arrays t' a = arrays t a"
proof (cases "arrays t (vertices b) = []")
  case True
  then show ?thesis using assms(1) by (simp add: deform_empty)
next
  case False
  show ?thesis
    using deform_general [OF refl False, of rnd r] assms by auto
qed

lemma deform_times_eq:
  "length (arrays s (vertices b)) = n \<Longrightarrow> 1 \<le> n \<Longrightarrow> newVertices b = [] \<Longrightarrow>
   \<exists>s'. deform_times rnd r k b s = Inr (b, s') \<and>
        length (arrays s' (vertices b)) = n * 2 ^ k \<and>
        (\<forall>a. a \<noteq> vertices b \<longrightarrow> arrays s' a = arrays s a) \<and>
        next_ref s' = next_ref s \<and> brushColor s' = brushColor s"
proof (induction k arbitrary: s n)
  case 0
  then show ?case by simp
next
  case (Suc k)
  define vs where "vs = arrays s (vertices b)"
  have ne: "vs \<noteq> []" using Suc.prems by (auto simp: vs_def)
  define s1 where "s1 = s\<lparr>draws := draws s + 2 * length vs,
       arrays := (arrays s)(vertices b := specified_round rnd r (draws s) vs)\<rparr>"
  have d: "deform rnd r b s = Inr (b, s1)"
    unfolding s1_def using deform_eq [OF vs_def [symmetric] ne Suc.prems(3)] .
  have len: "length (arrays s1 (vertices b)) = 2 * n"
    using length_specified_round [OF ne] Suc.prems(1) by (simp add: s1_def vs_def)
  obtain s' where s': "deform_times rnd r k b s1 = Inr (b, s')"
      "length (arrays s' (vertices b)) = (2 * n) * 2 ^ k"
      "\<forall>a. a \<noteq> vertices b \<longrightarrow> arrays s' a = arrays s1 a"
      "next_ref s' = next_ref s1" "brushColor s' = brushColor s1"
    using Suc.IH [OF len _ Suc.prems(3)] Suc.prems(2) by auto
  show ?case using d s' by (simp add: s1_def)
qed

text \<open>
  C1 (vertex growth law). On a brush whose vertex array holds \<open>n \<ge> 1\<close> vertices, one call
  of \<^verbatim>\<open>deform()\<close> returns normally and leaves the array as its old first vertex, then
  exactly \<open>n\<close> new vertices, then its old other vertices: \<open>n\<close> vertices are added and none
  is removed. After \<open>k\<close> calls the array holds exactly \<open>n * 2 ^ k\<close> vertices.
\<close>

theorem deform_vertex_growth:
  assumes "length (arrays s (vertices b)) = n" and "1 \<le> n" and "newVertices b = []"
  shows "(\<exists>nw s'. deform rnd r b s = Inr (b, s') \<and> length nw = n \<and>
            arrays s' (vertices b) =
              hd (arrays s (vertices b)) # nw @ tl (arrays s (vertices b))) \<and>
         (\<exists>s'. deform_times rnd r k b s = Inr (b, s') \<and>
            length (arrays s' (vertices b)) = n * 2 ^ k)"
proof
  have ne: "arrays s (vertices b) \<noteq> []" using assms by auto
  show "\<exists>nw s'. deform rnd r b s = Inr (b, s') \<and> length nw = n \<and>
      arrays s' (vertices b) = hd (arrays s (vertices b)) # nw @ tl (arrays s (vertices b))"
    using deform_eq [OF refl ne assms(3), of rnd r] assms(1)
    by (intro exI [of _ "rev (map (specified_vertex rnd r (draws s) (arrays s (vertices b))) [0..<n])"])
       (simp add: specified_round_def)
  show "\<exists>s'. deform_times rnd r k b s = Inr (b, s') \<and>
      length (arrays s' (vertices b)) = n * 2 ^ k"
    using deform_times_eq [OF assms, of rnd r k] by blast
qed

theorem deform_vertex_growth_witness:
  "length (arrays anchor_world (vertices (brush_new 0 anchor_world))) = 1 \<and> (1::nat) \<le> 1 \<and>
   newVertices (brush_new 0 anchor_world) = [] \<and>
   (\<exists>s'. deform_times (\<lambda>_. 3 / 4) 32 5 (brush_new 0 anchor_world) anchor_world =
           Inr (brush_new 0 anchor_world, s') \<and> length (arrays s' 0) = 32)"
  using deform_vertex_growth [of anchor_world "brush_new 0 anchor_world" 1 "\<lambda>_. 3 / 4" 32 5]
  by (simp add: anchor_world_def brush_new_def)

text \<open>
  C2 (insertion policy). One call of \<^verbatim>\<open>deform()\<close> on the polygon \<open>v\<^sub>0 \<dots> v\<^sub>n\<^sub>-\<^sub>1\<close> leaves
  the sequence \<open>v\<^sub>0, new\<^sub>n\<^sub>-\<^sub>1, \<dots>, new\<^sub>0, v\<^sub>1, \<dots>, v\<^sub>n\<^sub>-\<^sub>1\<close>, where \<open>new\<^sub>j\<close> is the displaced
  midpoint of the pair \<open>(v\<^sub>j, v\<^sub>j\<^sub>+\<^sub>1)\<close> and \<open>new\<^sub>n\<^sub>-\<^sub>1\<close> that of the wrap-around pair. For a
  single vertex \<open>p\<close> the result is \<open>p\<close> followed by \<open>p\<close> plus the random offset.
\<close>

theorem deform_insertion_policy:
  assumes "arrays s (vertices b) = vs" and "vs \<noteq> []" and "newVertices b = []"
  shows "\<exists>s'. deform rnd r b s = Inr (b, s') \<and>
           arrays s' (vertices b) =
             hd vs # rev (map (specified_vertex rnd r (draws s) vs) [0..<length vs]) @ tl vs \<and>
           (\<forall>p. vs = [p] \<longrightarrow>
              arrays s' (vertices b) =
                [p, (fst p + scale2 (- r) r (rnd (draws s)),
                     snd p + scale2 (- r) r (rnd (draws s + 1)))])"
  using deform_eq [OF assms, of rnd r]
  by (auto simp: specified_round_def specified_vertex_def)

theorem deform_insertion_policy_witness:
  "arrays anchor_world (vertices (brush_new 0 anchor_world)) = [(100, 100)] \<and>
   [(100, 100)] \<noteq> ([] :: vertex list) \<and> newVertices (brush_new 0 anchor_world) = [] \<and>
   (\<exists>s'. deform (\<lambda>_. 3 / 4) 32 (brush_new 0 anchor_world) anchor_world =
           Inr (brush_new 0 anchor_world, s') \<and>
         arrays s' 0 = [(100, 100), (116, 116)])"
  using deform_insertion_policy [of anchor_world "brush_new 0 anchor_world" "[(100, 100)]"
      "\<lambda>_. 3 / 4" 32]
  by (simp add: anchor_world_def brush_new_def scale2_def specified_vertex_def)

section \<open>The constructor of brush\<close>

text \<open>
  C3, as stated, fails: the constructor stores the reference it is given, so the array
  behind reference 0, which the caller passed in, is changed by \<^verbatim>\<open>deform()\<close>.
\<close>

theorem brush_constructor_copy_counterexample:
  "deform steady 32 (brush_new 0 anchor_world) anchor_world =
     Inr (brush_new 0 anchor_world, anchor_world_deformed) \<and>
   vertices (brush_new 0 anchor_world) = 0 \<and>
   arrays anchor_world 0 = [(100, 100)] \<and>
   arrays anchor_world_deformed 0 = [(100, 100), (116, 116)] \<and>
   arrays anchor_world_deformed 0 \<noteq> arrays anchor_world 0"
proof -
  have "deform steady 32 (brush_new 0 anchor_world) anchor_world =
     Inr (brush_new 0 anchor_world, anchor_world_deformed)"
    using deform_eq [of anchor_world "brush_new 0 anchor_world" "[(100, 100)]" steady 32]
    by (simp add: anchor_world_def anchor_world_deformed_def brush_new_def specified_round_def
        specified_vertex_def scale2_def steady_def)
  then show ?thesis
    by (simp add: anchor_world_def anchor_world_deformed_def brush_new_def)
qed

text \<open>
  C3, amended. The constructor of \<^verbatim>\<open>brush\<close> stores the reference of the caller's array
  and makes no copy: \<^verbatim>\<open>deform()\<close> on the new layer changes the caller's array, which for
  a non-empty array becomes the deformed sequence of twice the length. Every other array is
  left as it was.
\<close>

theorem brush_constructor_aliases:
  assumes "arrays s v = vs" and "vs \<noteq> []"
  shows "vertices (brush_new v s) = v \<and>
         (\<exists>s'. deform rnd r (brush_new v s) s = Inr (brush_new v s, s') \<and>
            arrays s' v = specified_round rnd r (draws s) vs \<and>
            length (arrays s' v) = 2 * length vs \<and>
            (\<forall>a. a \<noteq> v \<longrightarrow> arrays s' a = arrays s a))"
proof -
  have v: "vertices (brush_new v s) = v" and n: "newVertices (brush_new v s) = []"
    by (simp_all add: brush_new_def)
  have "arrays s (vertices (brush_new v s)) = vs" using assms(1) v by simp
  from deform_eq [OF this assms(2) n, of rnd r] length_specified_round [OF assms(2), of rnd r "draws s"]
  show ?thesis using v by simp
qed

theorem brush_constructor_aliases_witness:
  "arrays anchor_world 0 = [(100, 100)] \<and> [(100, 100)] \<noteq> ([] :: vertex list) \<and>
   vertices (brush_new 0 anchor_world) = 0 \<and>
   (\<exists>s'. deform steady 32 (brush_new 0 anchor_world) anchor_world =
           Inr (brush_new 0 anchor_world, s') \<and>
         arrays s' 0 = [(100, 100), (116, 116)] \<and> length (arrays s' 0) = 2)"
proof -
  have h: "arrays anchor_world 0 = [(100, 100)]" "[(100, 100)] \<noteq> ([] :: vertex list)"
    by (simp_all add: anchor_world_def)
  have d: "specified_round steady 32 (draws anchor_world) [(100, 100)] = [(100, 100), (116, 116)]"
    by (simp add: specified_round_def specified_vertex_def scale2_def steady_def)
  from brush_constructor_aliases [OF h, of steady 32]
  obtain s' where "deform steady 32 (brush_new 0 anchor_world) anchor_world =
        Inr (brush_new 0 anchor_world, s')"
      "arrays s' 0 = specified_round steady 32 (draws anchor_world) [(100, 100)]"
      "length (arrays s' 0) = 2 * length [(100, 100) :: vertex]"
    by blast
  moreover have "vertices (brush_new 0 anchor_world) = 0"
    using brush_constructor_aliases [OF h, of steady 32] by blast
  ultimately show ?thesis using h d by auto
qed

section \<open>The constructor of strokes\<close>

declare copy_loop.simps [simp del] layers_loop.simps [simp del] deform_layers.simps [simp del]
  rounds_loop.simps [simp del]

lemma copy_loop_eq: "j \<le> length src \<Longrightarrow> copy_loop src j acc = acc @ drop j src"
proof (induction "length src - j" arbitrary: j acc)
  case 0
  then show ?case by (subst copy_loop.simps) simp
next
  case (Suc k)
  then have lt: "j < length src" by simp
  have "copy_loop src j acc = copy_loop src (j + 1) (acc @ [src ! j])"
    using lt by (subst copy_loop.simps) simp
  also have "\<dots> = (acc @ [src ! j]) @ drop (j + 1) src"
    using Suc.hyps(2) lt by (intro Suc.hyps(1)) simp_all
  also have "\<dots> = acc @ drop j src"
    using lt by (simp add: Cons_nth_drop_Suc)
  finally show ?case .
qed

lemma new_brush_props:
  assumes "new_brush sk rnd a s = (b, s')"
  shows "vertices b = a" and "newVertices b = []" and "arrays s' = arrays s"
    and "next_ref s' = next_ref s" and "brushColor s' = brushColor s"
  using assms
  by (auto simp: new_brush_def Brush_new_def brush_new_def random2_def Let_def split: sketch.splits)

lemma layers_loop_inv:
  assumes "bo < lo" and "lo \<le> next_ref s" and "arrays s bo = src"
    and "distinct (map vertices ls)"
    and "\<forall>b \<in> set ls. lo \<le> vertices b \<and> vertices b < next_ref s \<and> newVertices b = [] \<and>
           arrays s (vertices b) = src"
    and "length ls = i" and "i \<le> nat \<lceil>tot\<rceil>"
  shows "\<exists>ls' s'. layers_loop sk rnd tot bo i ls s = (ls', s') \<and>
           distinct (map vertices ls') \<and>
           (\<forall>b \<in> set ls'. lo \<le> vertices b \<and> vertices b < next_ref s' \<and> newVertices b = [] \<and>
              arrays s' (vertices b) = src) \<and>
           length ls' = nat \<lceil>tot\<rceil> \<and>
           (\<forall>a < lo. arrays s' a = arrays s a) \<and> brushColor s' = brushColor s"
  using assms
proof (induction "nat \<lceil>tot\<rceil> - i" arbitrary: i ls s)
  case 0
  have eq: "i = nat \<lceil>tot\<rceil>" using "0.hyps" "0.prems"(7) by arith
  then have "\<not> real i < tot" by linarith
  then have "layers_loop sk rnd tot bo i ls s = (ls, s)"
    by (subst layers_loop.simps) simp
  then show ?case using "0.prems" eq by auto
next
  case (Suc k)
  then have lt: "real i < tot" by linarith
  define s1 where "s1 = s\<lparr>arrays := (arrays s)(next_ref s := src), next_ref := next_ref s + 1\<rparr>"
  have na: "new_array (copy_loop (arrays s bo) 0 []) s = (next_ref s, s1)"
    using Suc.prems(3) by (simp add: new_array_def copy_loop_eq s1_def)
  obtain b s2 where nb: "new_brush sk rnd (next_ref s) s1 = (b, s2)"
    by (cases "new_brush sk rnd (next_ref s) s1")
  note p = new_brush_props [OF nb]
  have step: "layers_loop sk rnd tot bo i ls s = layers_loop sk rnd tot bo (i + 1) (ls @ [b]) s2"
    using lt na nb by (subst layers_loop.simps) simp
  have a2: "arrays s2 = (arrays s)(next_ref s := src)" using p(3) by (simp add: s1_def)
  have n2: "next_ref s2 = next_ref s + 1" using p(4) by (simp add: s1_def)
  have "\<exists>ls' s'. layers_loop sk rnd tot bo (i + 1) (ls @ [b]) s2 = (ls', s') \<and>
           distinct (map vertices ls') \<and>
           (\<forall>b \<in> set ls'. lo \<le> vertices b \<and> vertices b < next_ref s' \<and> newVertices b = [] \<and>
              arrays s' (vertices b) = src) \<and>
           length ls' = nat \<lceil>tot\<rceil> \<and>
           (\<forall>a < lo. arrays s' a = arrays s2 a) \<and> brushColor s' = brushColor s2"
  proof (rule Suc.hyps(1))
    show "k = nat \<lceil>tot\<rceil> - (i + 1)" using Suc.hyps(2) by simp
    show "bo < lo" by fact
    show "lo \<le> next_ref s2" using Suc.prems(2) n2 by simp
    show "arrays s2 bo = src" using Suc.prems(1,2,3) a2 by simp
    show "distinct (map vertices (ls @ [b]))"
      using Suc.prems(4,5) p(1) by auto
    show "\<forall>b \<in> set (ls @ [b]). lo \<le> vertices b \<and> vertices b < next_ref s2 \<and>
        newVertices b = [] \<and> arrays s2 (vertices b) = src"
      using Suc.prems(2,5) p(1,2) a2 n2 by auto
    show "length (ls @ [b]) = i + 1" using Suc.prems(6) by simp
    show "i + 1 \<le> nat \<lceil>tot\<rceil>" using Suc.hyps(2) by simp
  qed
  moreover have "\<forall>a < lo. arrays s2 a = arrays s a"
    using Suc.prems(2) a2 by simp
  moreover have "brushColor s2 = brushColor s" using p(5) by (simp add: s1_def)
  ultimately show ?case using step by auto
qed


lemma strokes_new_props:
  assumes "vertices bo < next_ref s" and "strokes_new sk rnd bo s = (w, s1)"
  shows "distinct (map vertices (layers w))"
    and "\<forall>b \<in> set (layers w). next_ref s \<le> vertices b \<and> newVertices b = [] \<and>
           arrays s1 (vertices b) = arrays s (vertices bo)"
    and "length (layers w) = nat \<lceil>total w\<rceil>"
    and "\<forall>a < next_ref s. arrays s1 a = arrays s a"
    and "total w = (case sk of Sketch_js \<Rightarrow> 25 | Part_000 \<Rightarrow> scale2 10 30 (rnd (draws s))
           | Part_001 \<Rightarrow> scale2 8 32 (rnd (draws s)))"
proof -
  obtain tot s0 where t: "(case sk of Sketch_js \<Rightarrow> (25, s) | Part_000 \<Rightarrow> random2 rnd 10 30 s
      | Part_001 \<Rightarrow> random2 rnd 8 32 s) = (tot, s0)"
    by (cases "case sk of Sketch_js \<Rightarrow> (25, s) | Part_000 \<Rightarrow> random2 rnd 10 30 s
      | Part_001 \<Rightarrow> random2 rnd 8 32 s")
  have s0: "arrays s0 = arrays s" "next_ref s0 = next_ref s"
    using t by (auto simp: random2_def split: sketch.splits)
  have tot: "tot = (case sk of Sketch_js \<Rightarrow> 25 | Part_000 \<Rightarrow> scale2 10 30 (rnd (draws s))
           | Part_001 \<Rightarrow> scale2 8 32 (rnd (draws s)))"
    using t by (auto simp: random2_def split: sketch.splits)
  obtain ls' s' where l: "layers_loop sk rnd tot (vertices bo) 0 [] s0 = (ls', s')"
      "distinct (map vertices ls')"
      "\<forall>b \<in> set ls'. next_ref s \<le> vertices b \<and> vertices b < next_ref s' \<and> newVertices b = [] \<and>
              arrays s' (vertices b) = arrays s (vertices bo)"
      "length ls' = nat \<lceil>tot\<rceil>" "\<forall>a < next_ref s. arrays s' a = arrays s0 a"
    using layers_loop_inv [of "vertices bo" "next_ref s" s0 "arrays s (vertices bo)" "[]" 0 tot sk rnd]
      assms(1) s0 by auto
  have w: "w = \<lparr>total = tot, layers = ls'\<rparr>" and s1: "s1 = s'"
    using assms(2) t l(1) by (simp_all add: strokes_new_def)
  show "distinct (map vertices (layers w))" using l(2) w by simp
  show "\<forall>b \<in> set (layers w). next_ref s \<le> vertices b \<and> newVertices b = [] \<and>
           arrays s1 (vertices b) = arrays s (vertices bo)"
    using l(3) w s1 by simp
  show "length (layers w) = nat \<lceil>total w\<rceil>" using l(4) w by simp
  show "\<forall>a < next_ref s. arrays s1 a = arrays s a" using l(5) s0 s1 by simp
  show "total w = (case sk of Sketch_js \<Rightarrow> 25 | Part_000 \<Rightarrow> scale2 10 30 (rnd (draws s))
           | Part_001 \<Rightarrow> scale2 8 32 (rnd (draws s)))"
    using tot w by simp
qed

lemma anchor_bundle_facts:
  shows "vertices (brush_new 0 anchor_world) < next_ref anchor_world"
    and "strokes_new Sketch_js steady (brush_new 0 anchor_world) anchor_world =
          (fst anchor_bundle, snd anchor_bundle)"
    and "arrays anchor_world (vertices (brush_new 0 anchor_world)) = [(100, 100)]"
    and "length (layers (fst anchor_bundle)) = 25"
proof -
  show 1: "vertices (brush_new 0 anchor_world) < next_ref anchor_world"
    by (simp add: brush_new_def anchor_world_def)
  show 2: "strokes_new Sketch_js steady (brush_new 0 anchor_world) anchor_world =
          (fst anchor_bundle, snd anchor_bundle)"
    by (simp add: anchor_bundle_def)
  show "arrays anchor_world (vertices (brush_new 0 anchor_world)) = [(100, 100)]"
    by (simp add: brush_new_def anchor_world_def)
  show "length (layers (fst anchor_bundle)) = 25"
    using strokes_new_props(3,5) [OF 1 2] by simp
qed

text \<open>
  C4 (layer independence). Right after \<^verbatim>\<open>new strokes(brushObject)\<close> every layer holds the
  vertex sequence of \<^verbatim>\<open>brushObject\<close>; the layers' arrays are pairwise distinct and distinct
  from the caller's array; \<^verbatim>\<open>deform()\<close> on one layer, in whatever later state, leaves the
  array of every other layer as it was; and on a non-empty seed \<^verbatim>\<open>deform()\<close> of a layer
  returns normally.
\<close>

theorem strokes_layers_independent:
  assumes "vertices bo < next_ref s" and "strokes_new sk rnd bo s = (w, s1)"
  shows "(\<forall>b \<in> set (layers w). arrays s1 (vertices b) = arrays s (vertices bo)) \<and>
         distinct (map vertices (layers w)) \<and>
         (\<forall>b \<in> set (layers w). vertices b \<noteq> vertices bo) \<and>
         (\<forall>i < length (layers w). \<forall>j < length (layers w). i \<noteq> j \<longrightarrow>
            (\<forall>t b' t'. deform rnd' r (layers w ! i) t = Inr (b', t') \<longrightarrow>
               arrays t' (vertices (layers w ! j)) = arrays t (vertices (layers w ! j)))) \<and>
         (arrays s (vertices bo) \<noteq> [] \<longrightarrow>
            (\<forall>b \<in> set (layers w). \<exists>t'. deform rnd' r b s1 = Inr (b, t')))"
proof -
  note p = strokes_new_props [OF assms]
  have 1: "\<forall>b \<in> set (layers w). arrays s1 (vertices b) = arrays s (vertices bo)"
    using p(2) by blast
  have 3: "\<forall>b \<in> set (layers w). vertices b \<noteq> vertices bo"
    using p(2) assms(1) by fastforce
  have 4: "\<forall>i < length (layers w). \<forall>j < length (layers w). i \<noteq> j \<longrightarrow>
            (\<forall>t b' t'. deform rnd' r (layers w ! i) t = Inr (b', t') \<longrightarrow>
               arrays t' (vertices (layers w ! j)) = arrays t (vertices (layers w ! j)))"
  proof (intro allI impI)
    fix i j t b' t'
    assume ij: "i < length (layers w)" "j < length (layers w)" "i \<noteq> j"
      and d: "deform rnd' r (layers w ! i) t = Inr (b', t')"
    have "vertices (layers w ! j) \<noteq> vertices (layers w ! i)"
      using p(1) ij by (simp add: distinct_conv_nth)
    then show "arrays t' (vertices (layers w ! j)) = arrays t (vertices (layers w ! j))"
      using deform_frame [OF d] by simp
  qed
  have 5: "arrays s (vertices bo) \<noteq> [] \<longrightarrow>
            (\<forall>b \<in> set (layers w). \<exists>t'. deform rnd' r b s1 = Inr (b, t'))"
  proof (intro impI ballI)
    fix b assume ne: "arrays s (vertices bo) \<noteq> []" and b: "b \<in> set (layers w)"
    then have "arrays s1 (vertices b) \<noteq> []" "newVertices b = []" using p(2) by auto
    then show "\<exists>t'. deform rnd' r b s1 = Inr (b, t')"
      using deform_eq [OF refl, of s1 b rnd' r] by blast
  qed
  show ?thesis using 1 p(1) 3 4 5 by blast
qed

theorem strokes_layers_independent_witness:
  "vertices (brush_new 0 anchor_world) < next_ref anchor_world \<and>
   arrays (snd anchor_bundle) (vertices (layers (fst anchor_bundle) ! 0)) = [(100, 100)] \<and>
   arrays (snd anchor_bundle) (vertices (layers (fst anchor_bundle) ! 24)) = [(100, 100)] \<and>
   vertices (layers (fst anchor_bundle) ! 0) \<noteq> vertices (layers (fst anchor_bundle) ! 24) \<and>
   (\<exists>t'. deform steady 32 (layers (fst anchor_bundle) ! 0) (snd anchor_bundle) =
           Inr (layers (fst anchor_bundle) ! 0, t') \<and>
         arrays t' (vertices (layers (fst anchor_bundle) ! 24)) = [(100, 100)])"
proof -
  let ?w = "fst anchor_bundle" and ?s = "snd anchor_bundle"
  note f = anchor_bundle_facts
  note t = strokes_layers_independent [OF f(1) f(2), of steady 32]
  note t1 = t [THEN conjunct1, rule_format]
  note t2 = t [THEN conjunct2, THEN conjunct1]
  note t4 = t [THEN conjunct2, THEN conjunct2, THEN conjunct2, THEN conjunct1, rule_format]
  note t5 = t [THEN conjunct2, THEN conjunct2, THEN conjunct2, THEN conjunct2, rule_format]
  have m: "layers ?w ! 0 \<in> set (layers ?w)" "layers ?w ! 24 \<in> set (layers ?w)"
    using f(4) by simp_all
  have a: "arrays ?s (vertices (layers ?w ! 0)) = [(100, 100)]"
      "arrays ?s (vertices (layers ?w ! 24)) = [(100, 100)]"
    using t1 [OF m(1)] t1 [OF m(2)] f(3) by simp_all
  have d: "vertices (layers ?w ! 0) \<noteq> vertices (layers ?w ! 24)"
    using t2 f(4) by (simp add: distinct_conv_nth)
  have "arrays anchor_world (vertices (brush_new 0 anchor_world)) \<noteq> []"
    using f(3) by simp
  from t5 [OF this m(1)]
  obtain t' where t': "deform steady 32 (layers ?w ! 0) ?s = Inr (layers ?w ! 0, t')"
    by blast
  have "arrays t' (vertices (layers ?w ! 24)) = arrays ?s (vertices (layers ?w ! 24))"
    using t4 [of 0 24, OF _ _ _ t'] f(4) by simp
  then have "arrays t' (vertices (layers ?w ! 24)) = [(100, 100)]"
    using a(2) by simp
  then show ?thesis using f(1) a d t' by blast
qed

section \<open>Deforming a bundle\<close>

declare paint_loop.simps [simp del]

lemma deform_layers_ok:
  assumes "distinct (map vertices ls)" and "\<forall>b \<in> set ls. newVertices b = []"
    and "length ls = nat \<lceil>tot\<rceil>" and "1 \<le> n" and "i \<le> length ls"
    and "\<forall>j < length ls. length (arrays s (vertices (ls ! j))) = (if j < i then 2 * n else n)"
  shows "\<exists>s'. deform_layers rnd r tot i ls s = Inr (ls, s') \<and>
           (\<forall>b \<in> set ls. length (arrays s' (vertices b)) = 2 * n)"
  using assms(5,6)
proof (induction "length ls - i" arbitrary: i s)
  case 0
  then have i: "i = length ls" by simp
  then have "\<not> real i < tot" using assms(3) by linarith
  then have "deform_layers rnd r tot i ls s = Inr (ls, s)"
    by (subst deform_layers.simps) simp
  moreover have "\<forall>b \<in> set ls. length (arrays s (vertices b)) = 2 * n"
    using "0.prems"(2) i by (auto simp: in_set_conv_nth)
  ultimately show ?case by blast
next
  case (Suc k)
  then have lt: "i < length ls" by simp
  then have lt': "real i < tot" using assms(3) by linarith
  define b where "b = ls ! i"
  define vs where "vs = arrays s (vertices b)"
  have bm: "b \<in> set ls" using lt by (simp add: b_def)
  have len: "length vs = n" using Suc.prems(2) lt by (simp add: vs_def b_def)
  then have ne: "vs \<noteq> []" using assms(4) by auto
  define s1 where "s1 = s\<lparr>draws := draws s + 2 * length vs,
       arrays := (arrays s)(vertices b := specified_round rnd r (draws s) vs)\<rparr>"
  have d: "deform rnd r (ls ! i) s = Inr (ls ! i, s1)"
    using deform_eq [OF vs_def [symmetric] ne, of rnd r] bm assms(2) by (simp add: s1_def b_def)
  have step: "deform_layers rnd r tot i ls s = deform_layers rnd r tot (i + 1) ls s1"
    using lt lt' d by (subst deform_layers.simps) simp
  have inv: "\<forall>j < length ls. length (arrays s1 (vertices (ls ! j))) = (if j < i + 1 then 2 * n else n)"
  proof (intro allI impI)
    fix j assume j: "j < length ls"
    show "length (arrays s1 (vertices (ls ! j))) = (if j < i + 1 then 2 * n else n)"
    proof (cases "j = i")
      case True
      then show ?thesis using length_specified_round [OF ne, of rnd r "draws s"] len
        by (simp add: s1_def b_def)
    next
      case False
      then have "vertices (ls ! j) \<noteq> vertices b"
        using assms(1) j lt by (simp add: distinct_conv_nth b_def)
      then show ?thesis using Suc.prems(2) j False by (auto simp: s1_def)
    qed
  qed
  have "\<exists>s'. deform_layers rnd r tot (i + 1) ls s1 = Inr (ls, s') \<and>
           (\<forall>b \<in> set ls. length (arrays s' (vertices b)) = 2 * n)"
    using Suc.hyps(2) lt inv by (intro Suc.hyps(1)) simp_all
  then show ?case using step by simp
qed

lemma deform_pass_ok:
  assumes "bundle_ok n w s" and "1 \<le> n"
  shows "\<exists>s'. deform_pass rnd r w s = Inr (w, s') \<and> bundle_ok (2 * n) w s'"
proof -
  have "\<exists>s'. deform_layers rnd r (total w) 0 (layers w) s = Inr (layers w, s') \<and>
           (\<forall>b \<in> set (layers w). length (arrays s' (vertices b)) = 2 * n)"
    using assms by (intro deform_layers_ok) (auto simp: bundle_ok_def)
  then obtain s' where s': "deform_layers rnd r (total w) 0 (layers w) s = Inr (layers w, s')"
      "\<forall>b \<in> set (layers w). length (arrays s' (vertices b)) = 2 * n" by blast
  have "deform_pass rnd r w s = Inr (w, s')" using s'(1) by (simp add: deform_pass_def)
  moreover have "bundle_ok (2 * n) w s'" using assms(1) s'(2) by (simp add: bundle_ok_def)
  ultimately show ?thesis by blast
qed

lemma rounds_loop_ok:
  assumes "bundle_ok n w s" and "1 \<le> n"
  shows "\<exists>s'. rounds_loop rnd r i w s = Inr (w, s') \<and> bundle_ok (n * 2 ^ nat \<lceil>i\<rceil>) w s'"
  using assms
proof (induction "nat \<lceil>i\<rceil>" arbitrary: i n s)
  case 0
  then have "\<not> i > 0" by linarith
  then have "rounds_loop rnd r i w s = Inr (w, s)" by (subst rounds_loop.simps) simp
  then show ?case using 0 by simp
next
  case (Suc k)
  then have pos: "i > 0" by linarith
  have k: "k = nat \<lceil>i - 1\<rceil>" using Suc.hyps(2) by linarith
  obtain s1 where s1: "deform_pass rnd r w s = Inr (w, s1)" "bundle_ok (2 * n) w s1"
    using deform_pass_ok [OF Suc.prems] by blast
  have step: "rounds_loop rnd r i w s = rounds_loop rnd r (i - 1) w s1"
    using pos s1(1) by (subst rounds_loop.simps) simp
  obtain s' where s': "rounds_loop rnd r (i - 1) w s1 = Inr (w, s')"
      "bundle_ok (2 * n * 2 ^ nat \<lceil>i - 1\<rceil>) w s'"
    using Suc.hyps(1) [OF k s1(2)] Suc.prems(2) by auto
  have "2 * n * 2 ^ nat \<lceil>i - 1\<rceil> = n * 2 ^ nat \<lceil>i\<rceil>"
    using k Suc.hyps(2) by (metis mult.assoc mult.commute power_Suc)
  then have "bundle_ok (n * 2 ^ nat \<lceil>i\<rceil>) w s'" using s'(2) by (simp only:)
  then show ?case using step s'(1) by simp
qed

lemma strokes_deform_ok:
  assumes "bundle_ok n w s" and "1 \<le> n"
  shows "\<exists>s'. strokes_deform sk rnd r w s = Inr (w, s') \<and>
           bundle_ok (n * 2 ^ rounds_of sk rnd s) w s'"
proof (cases "sk = Part_001")
  case True
  define s0 where "s0 = s\<lparr>draws := draws s + 1\<rparr>"
  have "bundle_ok n w s0" using assms(1) by (simp add: bundle_ok_def s0_def)
  from rounds_loop_ok [OF this assms(2), of rnd r "rnd (draws s) * 8"]
  show ?thesis using True by (simp add: strokes_deform_def random1_def s0_def rounds_of_def)
next
  case False
  then have "strokes_deform sk rnd r w s = deform_pass rnd r w s" "rounds_of sk rnd s = 1"
    by (cases sk; simp add: strokes_deform_def rounds_of_def)+
  then show ?thesis using deform_pass_ok [OF assms, of rnd r] by (simp add: mult.commute)
qed

lemma strokes_deform_times_ok:
  assumes "bundle_ok n w s" and "1 \<le> n"
  shows "\<exists>s' R. strokes_deform_times sk rnd r m w s = Inr (w, s') \<and>
           bundle_ok (n * 2 ^ R) w s' \<and> (sk \<noteq> Part_001 \<longrightarrow> R = m)"
  using assms
proof (induction m arbitrary: n s)
  case 0
  have "strokes_deform_times sk rnd r 0 w s = Inr (w, s) \<and> bundle_ok (n * 2 ^ 0) w s \<and>
      (sk \<noteq> Part_001 \<longrightarrow> (0::nat) = 0)"
    using 0 by simp
  then show ?case by blast
next
  case (Suc m)
  define R1 where "R1 = rounds_of sk rnd s"
  obtain s1 where s1: "strokes_deform sk rnd r w s = Inr (w, s1)" "bundle_ok (n * 2 ^ R1) w s1"
    using strokes_deform_ok [OF Suc.prems, of sk rnd r] by (auto simp: R1_def)
  have R1: "sk \<noteq> Part_001 \<longrightarrow> R1 = 1" by (cases sk) (simp_all add: R1_def rounds_of_def)
  have "1 \<le> n * 2 ^ R1" using Suc.prems(2) by (simp add: Suc_le_eq)
  from Suc.IH [OF s1(2) this]
  obtain s' R where s': "strokes_deform_times sk rnd r m w s1 = Inr (w, s')"
      "bundle_ok (n * 2 ^ R1 * 2 ^ R) w s'" "sk \<noteq> Part_001 \<longrightarrow> R = m" by blast
  have "strokes_deform_times sk rnd r (Suc m) w s = Inr (w, s') \<and>
      bundle_ok (n * 2 ^ (R1 + R)) w s' \<and> (sk \<noteq> Part_001 \<longrightarrow> R1 + R = Suc m)"
    using s1(1) s' R1 by (simp add: power_add mult.assoc)
  then show ?case by blast
qed

lemma paint_loop_eq:
  "i \<le> 5 \<Longrightarrow> paint_loop sk rnd r i w s = strokes_deform_times sk rnd r (5 - i) w s"
proof (induction "5 - i" arbitrary: i w s)
  case 0
  then show ?case by (subst paint_loop.simps) simp
next
  case (Suc k)
  then have lt: "i < 5" and k: "5 - i = Suc (5 - (i + 1))" by simp_all
  show ?case
  proof (cases "strokes_deform sk rnd r w s")
    case (Inl e)
    then show ?thesis using lt k by (subst paint_loop.simps) simp
  next
    case (Inr p)
    obtain w' s' where p: "p = (w', s')" by (cases p)
    have "paint_loop sk rnd r (i + 1) w' s' = strokes_deform_times sk rnd r (5 - (i + 1)) w' s'"
      using Suc.hyps(2) lt by (intro Suc.hyps(1)) simp_all
    then show ?thesis using Inr p lt k by (subst paint_loop.simps) simp
  qed
qed

lemma strokes_new_bundle_ok:
  assumes "vertices bo < next_ref s" and "strokes_new sk rnd bo s = (w, s1)"
  shows "bundle_ok (length (arrays s (vertices bo))) w s1"
  using strokes_new_props [OF assms] by (simp add: bundle_ok_def)

lemma deform_layers_length:
  "deform_layers rnd r tot i ls s = Inr (ls', s') \<Longrightarrow> length ls' = length ls"
proof (induction rnd r tot i ls s rule: deform_layers.induct)
  case (1 rnd r tot i ls s)
  show ?case
  proof (cases "real i < tot")
    case False
    then show ?thesis using "1.prems" by (subst (asm) deform_layers.simps) simp
  next
    case True
    show ?thesis
    proof (cases "i < length ls")
      case False
      then show ?thesis using True "1.prems" by (subst (asm) deform_layers.simps) simp
    next
      case lt: True
      show ?thesis
      proof (cases "deform rnd r (ls ! i) s")
        case (Inl e)
        then show ?thesis using True lt "1.prems" by (subst (asm) deform_layers.simps) simp
      next
        case (Inr p)
        obtain b1 s1 where p: "p = (b1, s1)" by (cases p)
        have "deform_layers rnd r tot (i + 1) (ls[i := b1]) s1 = Inr (ls', s')"
          using True lt Inr p "1.prems" by (subst (asm) deform_layers.simps) simp
        then have "length ls' = length (ls[i := b1])"
          using "1.IH" [OF True lt Inr p [symmetric]] by simp
        then show ?thesis by simp
      qed
    qed
  qed
qed

lemma deform_pass_fixed:
  "deform_pass rnd r w s = Inr (w', s') \<Longrightarrow>
   total w' = total w \<and> length (layers w') = length (layers w)"
  by (auto simp: deform_pass_def dest: deform_layers_length split: sum.splits)

lemma rounds_loop_fixed:
  "rounds_loop rnd r i w s = Inr (w', s') \<Longrightarrow>
   total w' = total w \<and> length (layers w') = length (layers w)"
proof (induction "nat \<lceil>i\<rceil>" arbitrary: i w s)
  case 0
  then have "\<not> i > 0" by linarith
  then show ?case using "0.prems" by (subst (asm) rounds_loop.simps) simp
next
  case (Suc k)
  then have pos: "i > 0" by linarith
  have k: "k = nat \<lceil>i - 1\<rceil>" using Suc.hyps(2) by linarith
  show ?case
  proof (cases "deform_pass rnd r w s")
    case (Inl e)
    then show ?thesis using pos Suc.prems by (subst (asm) rounds_loop.simps) simp
  next
    case (Inr p)
    obtain w1 s1 where p: "p = (w1, s1)" by (cases p)
    have "rounds_loop rnd r (i - 1) w1 s1 = Inr (w', s')"
      using pos Inr p Suc.prems by (subst (asm) rounds_loop.simps) simp
    then have "total w' = total w1 \<and> length (layers w') = length (layers w1)"
      using Suc.hyps(1) [OF k] by simp
    then show ?thesis using deform_pass_fixed Inr p by fastforce
  qed
qed

lemma strokes_deform_fixed:
  "strokes_deform sk rnd r w s = Inr (w', s') \<Longrightarrow>
   total w' = total w \<and> length (layers w') = length (layers w)"
  by (cases sk)
    (auto simp: strokes_deform_def random1_def dest: deform_pass_fixed rounds_loop_fixed)

lemma strokes_deform_times_fixed:
  "strokes_deform_times sk rnd r m w s = Inr (w', s') \<Longrightarrow>
   total w' = total w \<and> length (layers w') = length (layers w)"
proof (induction m arbitrary: w s)
  case 0
  then show ?case by simp
next
  case (Suc m)
  show ?case
  proof (cases "strokes_deform sk rnd r w s")
    case (Inl e)
    then show ?thesis using Suc.prems by simp
  next
    case (Inr p)
    obtain w1 s1 where p: "p = (w1, s1)" by (cases p)
    have "strokes_deform_times sk rnd r m w1 s1 = Inr (w', s')"
      using Suc.prems Inr p by simp
    then have "total w' = total w1 \<and> length (layers w') = length (layers w1)"
      using Suc.IH by simp
    then show ?thesis using strokes_deform_fixed Inr p by fastforce
  qed
qed

lemma scale2_range:
  assumes "lo < hi" and "0 \<le> u" and "u < 1"
  shows "lo \<le> scale2 lo hi u" and "scale2 lo hi u < hi"
proof -
  have eq: "scale2 lo hi u = u * (hi - lo) + lo" using assms(1) by (simp add: scale2_def)
  have "0 \<le> u * (hi - lo)" using assms by simp
  then show "lo \<le> scale2 lo hi u" using eq by linarith
  have "u * (hi - lo) < 1 * (hi - lo)"
    using assms by (intro mult_strict_right_mono) simp_all
  then have "u * (hi - lo) < hi - lo" by (simp only: mult_1)
  then show "scale2 lo hi u < hi" using eq by linarith
qed

lemma paint_ok:
  "\<exists>w s' R. paint sk rnd r v s = Inr (w, s') \<and>
     (\<forall>b \<in> set (layers w). length (arrays s' (vertices b)) = 2 ^ R) \<and>
     (sk \<noteq> Part_001 \<longrightarrow> R = 5)"
proof -
  define s1 where "s1 = s\<lparr>arrays := (arrays s)(next_ref s := [v]), next_ref := next_ref s + 1\<rparr>"
  have na: "new_array [v] s = (next_ref s, s1)" by (simp add: new_array_def s1_def)
  obtain b s2 where nb: "new_brush sk rnd (next_ref s) s1 = (b, s2)"
    by (cases "new_brush sk rnd (next_ref s) s1")
  note p = new_brush_props [OF nb]
  obtain w s3 where sn: "strokes_new sk rnd b s2 = (w, s3)"
    by (cases "strokes_new sk rnd b s2")
  have lt: "vertices b < next_ref s2" using p(1,4) by (simp add: s1_def)
  have seed: "arrays s2 (vertices b) = [v]" using p(1,3) by (simp add: s1_def)
  have ok: "bundle_ok 1 w s3" using strokes_new_bundle_ok [OF lt sn] seed by simp
  show ?thesis
  proof (cases "sk = Part_001")
    case True
    obtain s' where "strokes_deform sk rnd r w s3 = Inr (w, s')"
        "bundle_ok (1 * 2 ^ rounds_of sk rnd s3) w s'"
      using strokes_deform_ok [OF ok, of sk rnd r] by auto
    moreover have "paint sk rnd r v s = strokes_deform sk rnd r w s3"
      using True na nb sn by (simp add: paint_def)
    ultimately have "paint sk rnd r v s = Inr (w, s') \<and>
        (\<forall>b \<in> set (layers w). length (arrays s' (vertices b)) = 2 ^ rounds_of sk rnd s3) \<and>
        (sk \<noteq> Part_001 \<longrightarrow> rounds_of sk rnd s3 = 5)"
      using True by (simp add: bundle_ok_def)
    then show ?thesis by blast
  next
    case False
    define s4 where "s4 = s3\<lparr>draws := draws s3 + 1\<rparr>"
    have ok4: "bundle_ok 1 w s4" using ok by (simp add: bundle_ok_def s4_def)
    have "paint sk rnd r v s = paint_loop sk rnd r 0 w s4"
      using False na nb sn by (cases sk) (simp_all add: paint_def random2_def s4_def)
    then have eq: "paint sk rnd r v s = strokes_deform_times sk rnd r 5 w s4"
      by (simp add: paint_loop_eq)
    obtain s' R where "strokes_deform_times sk rnd r 5 w s4 = Inr (w, s')"
        "bundle_ok (1 * 2 ^ R) w s'" "sk \<noteq> Part_001 \<longrightarrow> R = 5"
      using strokes_deform_times_ok [OF ok4, of sk rnd r 5] by auto
    then have "paint sk rnd r v s = Inr (w, s') \<and>
        (\<forall>b \<in> set (layers w). length (arrays s' (vertices b)) = 2 ^ R) \<and>
        (sk \<noteq> Part_001 \<longrightarrow> R = 5)"
      using eq by (simp add: bundle_ok_def)
    then show ?thesis by blast
  qed
qed

text \<open>
  C5 (equal rounds). On a bundle built from a non-empty seed of \<open>n\<close> vertices, every call of
  \<^verbatim>\<open>strokes.deform()\<close> returns normally and gives every layer the same number of rounds,
  \<open>rounds_of\<close> (drawn once per call in \<open>Part_001\<close>, one otherwise); after any number \<open>m\<close>
  of calls all layers hold the same number \<open>n * 2 ^ R\<close> of vertices, with \<open>R = m\<close> where a
  call is one round. So \<^verbatim>\<open>paint\<close> returns normally with a bundle whose layers all hold
  \<open>2 ^ R\<close> vertices, \<open>R = 5\<close> in the sketches that call \<^verbatim>\<open>deform\<close> five times.
\<close>

theorem strokes_equal_rounds:
  assumes "vertices bo < next_ref s" and "arrays s (vertices bo) \<noteq> []"
    and "strokes_new sk rnd bo s = (w, s1)"
  shows "(\<exists>s' R. strokes_deform_times sk rnd r m w s1 = Inr (w, s') \<and>
            (\<forall>b \<in> set (layers w).
               length (arrays s' (vertices b)) = length (arrays s (vertices bo)) * 2 ^ R) \<and>
            (sk \<noteq> Part_001 \<longrightarrow> R = m)) \<and>
         (\<exists>s'. strokes_deform sk rnd r w s1 = Inr (w, s') \<and>
            (\<forall>b \<in> set (layers w).
               length (arrays s' (vertices b)) =
                 length (arrays s (vertices bo)) * 2 ^ rounds_of sk rnd s1)) \<and>
         (\<exists>w' s' R. paint sk rnd r v s0 = Inr (w', s') \<and>
            (\<forall>b \<in> set (layers w'). length (arrays s' (vertices b)) = 2 ^ R) \<and>
            (sk \<noteq> Part_001 \<longrightarrow> R = 5))"
proof -
  define n where "n = length (arrays s (vertices bo))"
  have n: "1 \<le> n" using assms(2) by (simp add: n_def Suc_le_eq)
  have ok: "bundle_ok n w s1"
    using strokes_new_bundle_ok [OF assms(1,3)] by (simp add: n_def)
  have 1: "\<exists>s' R. strokes_deform_times sk rnd r m w s1 = Inr (w, s') \<and>
            (\<forall>b \<in> set (layers w). length (arrays s' (vertices b)) = n * 2 ^ R) \<and>
            (sk \<noteq> Part_001 \<longrightarrow> R = m)"
    using strokes_deform_times_ok [OF ok n, of sk rnd r m] by (auto simp: bundle_ok_def)
  have 2: "\<exists>s'. strokes_deform sk rnd r w s1 = Inr (w, s') \<and>
            (\<forall>b \<in> set (layers w). length (arrays s' (vertices b)) = n * 2 ^ rounds_of sk rnd s1)"
    using strokes_deform_ok [OF ok n, of sk rnd r] by (auto simp: bundle_ok_def)
  show ?thesis using 1 2 paint_ok [of sk rnd r v s0] unfolding n_def by blast
qed

theorem strokes_equal_rounds_witness:
  "vertices (brush_new 0 anchor_world) < next_ref anchor_world \<and>
   arrays anchor_world (vertices (brush_new 0 anchor_world)) \<noteq> [] \<and>
   (\<exists>s'. strokes_deform_times Sketch_js steady 32 3 (fst anchor_bundle) (snd anchor_bundle) =
           Inr (fst anchor_bundle, s') \<and>
         length (arrays s' (vertices (layers (fst anchor_bundle) ! 0))) = 8 \<and>
         length (arrays s' (vertices (layers (fst anchor_bundle) ! 24))) = 8)"
proof -
  let ?w = "fst anchor_bundle" and ?s = "snd anchor_bundle"
  note f = anchor_bundle_facts
  have ne: "arrays anchor_world (vertices (brush_new 0 anchor_world)) \<noteq> []"
    using f(3) by simp
  have m: "layers ?w ! 0 \<in> set (layers ?w)" "layers ?w ! 24 \<in> set (layers ?w)"
    using f(4) by simp_all
  from strokes_equal_rounds [OF f(1) ne f(2), of 32 3, THEN conjunct1]
  obtain s' R where s': "strokes_deform_times Sketch_js steady 32 3 ?w ?s = Inr (?w, s')"
      "\<forall>b \<in> set (layers ?w). length (arrays s' (vertices b)) =
          length (arrays anchor_world (vertices (brush_new 0 anchor_world))) * 2 ^ R"
      "R = 3"
    by auto
  have "length (arrays s' (vertices (layers ?w ! 0))) = 8"
      "length (arrays s' (vertices (layers ?w ! 24))) = 8"
    using s'(2,3) m f(3) by simp_all
  then show ?thesis using f(1) ne s'(1) by blast
qed

section \<open>The number of layers\<close>

lemma low_bundle_facts:
  shows "vertices (brush_new 0 anchor_world) < next_ref anchor_world"
    and "strokes_new Part_000 low_draw (brush_new 0 anchor_world) anchor_world =
          (fst low_bundle, snd low_bundle)"
    and "total (fst low_bundle) = 21 / 2"
    and "length (layers (fst low_bundle)) = 11"
proof -
  show 1: "vertices (brush_new 0 anchor_world) < next_ref anchor_world"
    by (simp add: brush_new_def anchor_world_def)
  show 2: "strokes_new Part_000 low_draw (brush_new 0 anchor_world) anchor_world =
          (fst low_bundle, snd low_bundle)"
    by (simp add: low_bundle_def)
  show 3: "total (fst low_bundle) = 21 / 2"
    using strokes_new_props(5) [OF 1 2] by (simp add: scale2_def low_draw_def)
  have "\<lceil>21 / 2 :: real\<rceil> = 11" by linarith
  then show "length (layers (fst low_bundle)) = 11"
    using strokes_new_props(3) [OF 1 2] 3 by simp
qed

text \<open>
  C6, as stated, fails: with the raw draw \<open>1/40\<close>, \<^verbatim>\<open>random(10, 30)\<close> is \<open>10.5\<close>, so
  \<^verbatim>\<open>this.total\<close> is no integer, and the bundle holds 11 layers, not \<^verbatim>\<open>this.total\<close> many.
\<close>

theorem strokes_total_integer_counterexample:
  "total (fst low_bundle) = 21 / 2 \<and>
   real_of_int \<lfloor>total (fst low_bundle)\<rfloor> \<noteq> total (fst low_bundle) \<and>
   length (layers (fst low_bundle)) = 11 \<and>
   real (length (layers (fst low_bundle))) \<noteq> total (fst low_bundle)"
proof -
  have "\<lfloor>21 / 2 :: real\<rfloor> = 10" by linarith
  then have "\<lfloor>total (fst low_bundle)\<rfloor> = 10"
    by (simp only: low_bundle_facts(3))
  then have "real_of_int \<lfloor>total (fst low_bundle)\<rfloor> = 10"
    by simp
  moreover have "(10::real) \<noteq> 21 / 2" by simp
  ultimately have "real_of_int \<lfloor>total (fst low_bundle)\<rfloor> \<noteq> total (fst low_bundle)"
    using low_bundle_facts(3) by metis
  moreover have "real (length (layers (fst low_bundle))) \<noteq> total (fst low_bundle)"
    by (simp add: low_bundle_facts(3,4))
  ultimately show ?thesis using low_bundle_facts(3,4) by blast
qed

text \<open>
  C6, amended. For a raw draw from 0 up to but not including 1, \<^verbatim>\<open>this.total\<close> is a real
  number with \<open>a \<le> total < b\<close> for the range \<open>[a, b]\<close> of the sketch (exactly 25 in
  \<open>Sketch_js\<close>); the bundle holds exactly \<open>\<lceil>total\<rceil>\<close> layers, a whole number from \<open>a\<close> to
  \<open>b\<close>; and no call of \<^verbatim>\<open>strokes.deform()\<close> changes \<^verbatim>\<open>this.total\<close> or the number of layers.
\<close>

theorem strokes_layer_count:
  assumes "vertices bo < next_ref s" and "0 \<le> rnd (draws s)" and "rnd (draws s) < 1"
    and "strokes_new sk rnd bo s = (w, s1)"
  shows "(case sk of
            Sketch_js \<Rightarrow> total w = 25
          | Part_000 \<Rightarrow> 10 \<le> total w \<and> total w < 30
          | Part_001 \<Rightarrow> 8 \<le> total w \<and> total w < 32) \<and>
         length (layers w) = nat \<lceil>total w\<rceil> \<and>
         (case sk of
            Sketch_js \<Rightarrow> length (layers w) = 25
          | Part_000 \<Rightarrow> 10 \<le> length (layers w) \<and> length (layers w) \<le> 30
          | Part_001 \<Rightarrow> 8 \<le> length (layers w) \<and> length (layers w) \<le> 32) \<and>
         (\<forall>m w' s'. strokes_deform_times sk rnd' r m w s1 = Inr (w', s') \<longrightarrow>
            total w' = total w \<and> length (layers w') = length (layers w))"
proof -
  note p = strokes_new_props [OF assms(1,4)]
  have a: "10 \<le> scale2 10 30 (rnd (draws s)) \<and> scale2 10 30 (rnd (draws s)) < 30"
    using scale2_range [of 10 30 "rnd (draws s)"] assms(2,3) by simp
  have b: "8 \<le> scale2 8 32 (rnd (draws s)) \<and> scale2 8 32 (rnd (draws s)) < 32"
    using scale2_range [of 8 32 "rnd (draws s)"] assms(2,3) by simp
  have 1: "case sk of
            Sketch_js \<Rightarrow> total w = 25
          | Part_000 \<Rightarrow> 10 \<le> total w \<and> total w < 30
          | Part_001 \<Rightarrow> 8 \<le> total w \<and> total w < 32"
    using p(5) a b by (cases sk) simp_all
  have 3: "case sk of
            Sketch_js \<Rightarrow> length (layers w) = 25
          | Part_000 \<Rightarrow> 10 \<le> length (layers w) \<and> length (layers w) \<le> 30
          | Part_001 \<Rightarrow> 8 \<le> length (layers w) \<and> length (layers w) \<le> 32"
  proof (cases sk)
    case Sketch_js
    then show ?thesis using 1 p(3) by simp
  next
    case Part_000
    then have "10 \<le> total w" "total w < 30" using 1 by simp_all
    then have "10 \<le> nat \<lceil>total w\<rceil>" "nat \<lceil>total w\<rceil> \<le> 30" by linarith+
    then show ?thesis using Part_000 p(3) by simp
  next
    case Part_001
    then have "8 \<le> total w" "total w < 32" using 1 by simp_all
    then have "8 \<le> nat \<lceil>total w\<rceil>" "nat \<lceil>total w\<rceil> \<le> 32" by linarith+
    then show ?thesis using Part_001 p(3) by simp
  qed
  show ?thesis using 1 p(3) 3 strokes_deform_times_fixed by blast
qed

theorem strokes_layer_count_witness:
  "vertices (brush_new 0 anchor_world) < next_ref anchor_world \<and>
   0 \<le> low_draw (draws anchor_world) \<and> low_draw (draws anchor_world) < 1 \<and>
   10 \<le> total (fst low_bundle) \<and> total (fst low_bundle) < 30 \<and>
   length (layers (fst low_bundle)) = nat \<lceil>total (fst low_bundle)\<rceil> \<and>
   10 \<le> length (layers (fst low_bundle)) \<and> length (layers (fst low_bundle)) \<le> 30"
proof -
  have r: "0 \<le> low_draw (draws anchor_world)" "low_draw (draws anchor_world) < 1"
    by (simp_all add: low_draw_def)
  note t = strokes_layer_count [OF low_bundle_facts(1) r low_bundle_facts(2), of steady 32]
  have "10 \<le> total (fst low_bundle) \<and> total (fst low_bundle) < 30"
    using t [THEN conjunct1] by simp
  moreover have "length (layers (fst low_bundle)) = nat \<lceil>total (fst low_bundle)\<rceil>"
    using t [THEN conjunct2, THEN conjunct1] .
  moreover have "10 \<le> length (layers (fst low_bundle)) \<and> length (layers (fst low_bundle)) \<le> 30"
    using t [THEN conjunct2, THEN conjunct2, THEN conjunct1] by simp
  ultimately show ?thesis using low_bundle_facts(1) r by blast
qed

section \<open>The pitch detector\<close>

declare rms_loop.simps [simp del] trim_loop.simps [simp del] acf_inner.simps [simp del]
  acf_outer.simps [simp del] first_dip.simps [simp del] peak_loop.simps [simp del]

lemma length_acf_outer: "length (acf_outer b i c) = length c"
proof (induction "length b - i" arbitrary: i c)
  case 0
  then show ?case by (subst acf_outer.simps) simp
next
  case (Suc k)
  then have lt: "i < length b" by simp
  have "acf_outer b i c = acf_outer b (i + 1) (c[i := acf_inner b i 0 (c ! i)])"
    using lt by (subst acf_outer.simps) simp
  moreover have "length (acf_outer b (i + 1) (c[i := acf_inner b i 0 (c ! i)])) =
      length (c[i := acf_inner b i 0 (c ! i)])"
    using Suc.hyps(2) by (intro Suc.hyps(1)) simp
  ultimately show ?case by simp
qed

lemma length_autocorrelation: "length (autocorrelation b) = length b"
  by (simp add: autocorrelation_def length_acf_outer)

lemma rne_near: "\<bar>m - of_int M\<bar> < 1 / 2 \<Longrightarrow> rne m = M"
proof -
  assume a: "\<bar>m - of_int M\<bar> < 1 / 2"
  show ?thesis
  proof (cases "of_int M \<le> m")
    case True
    then have f: "\<lfloor>m\<rfloor> = M" using a by (intro floor_unique) linarith+
    then show ?thesis using a True by (simp add: rne_def Let_def)
  next
    case False
    then have f: "\<lfloor>m\<rfloor> = M - 1" using a by (intro floor_unique) (simp; linarith)+
    have "m - of_int (M - 1) > 1 / 2" using a False by simp
    then show ?thesis using f by (simp add: rne_def Let_def)
  qed
qed


lemma rne_ge_floor: "\<lfloor>m\<rfloor> \<le> rne m"
  by (simp add: rne_def Let_def)

lemma ulp_pos: "0 < ulp x"
  by (simp add: ulp_def)

lemma ulp_eqI:
  assumes "2 powr of_int e \<le> x" and "x < 2 powr of_int (e + 1)" and "- 1022 \<le> e"
  shows "ulp x = 2 powr of_int (e - 52)"
proof -
  have pos: "0 < x" using assms(1) by (smt (verit) powr_gt_zero)
  have "\<lfloor>log 2 x\<rfloor> = e"
    using floor_log_eq_powr_iff [of x 2 e] pos assms(1,2) by simp
  then show ?thesis using pos assms(3) by (simp add: ulp_def)
qed

lemma to_double_eqI:
  assumes "2 powr of_int e \<le> x" and "x < 2 powr of_int (e + 1)" and "- 1022 \<le> e"
    and "rne (x / 2 powr of_int (e - 52)) = M"
  shows "to_double x = of_int M * 2 powr of_int (e - 52)"
proof -
  have pos: "0 < x" using assms(1) by (smt (verit) powr_gt_zero)
  show ?thesis using ulp_eqI [OF assms(1,2,3)] assms(4) pos by (simp add: to_double_def)
qed


lemma to_double_nonneg: "0 \<le> x \<Longrightarrow> 0 \<le> to_double x"
proof -
  assume x: "0 \<le> x"
  have "0 \<le> x / ulp x" using x ulp_pos [of x] by simp
  then have "0 \<le> \<lfloor>x / ulp x\<rfloor>" by simp
  then have "0 \<le> rne (x / ulp x)" using rne_ge_floor [of "x / ulp x"] by linarith
  then show ?thesis using ulp_pos [of x] by (simp add: to_double_def)
qed

lemma to_double_ge_pow2:
  assumes "2 powr of_int k \<le> x" and "- 1022 \<le> k"
  shows "2 powr of_int k \<le> to_double x"
proof -
  have pos: "0 < x" using assms(1) by (smt (verit) powr_gt_zero)
  define e where "e = \<lfloor>log 2 x\<rfloor>"
  have e: "2 powr of_int e \<le> x" "x < 2 powr of_int (e + 1)"
    using floor_log_eq_powr_iff [of x 2 e] pos by (simp_all add: e_def)
  have "of_int k \<le> log 2 x"
    using assms(1) pos by (simp add: le_log_iff)
  then have ke: "k \<le> e" by (simp add: e_def le_floor_iff)
  then have e1022: "- 1022 \<le> e" using assms(2) by simp
  have u: "ulp x = 2 powr of_int (e - 52)" by (rule ulp_eqI [OF e e1022])
  have "2 powr of_int e / 2 powr of_int (e - 52) \<le> x / ulp x"
    unfolding u using e(1) by (simp add: divide_right_mono)
  moreover have "2 powr of_int e / 2 powr of_int (e - 52) = (2::real) ^ 52"
    by (simp add: powr_diff [symmetric] powr_numeral [symmetric] del: powr_numeral)
  ultimately have "(2::real) ^ 52 \<le> x / ulp x" by simp
  then have "(2::int) ^ 52 \<le> \<lfloor>x / ulp x\<rfloor>" by (simp add: le_floor_iff)
  then have "(2::int) ^ 52 \<le> rne (x / ulp x)" using rne_ge_floor [of "x / ulp x"] by linarith
  then have "(2::real) ^ 52 \<le> of_int (rne (x / ulp x))"
    by (metis of_int_le_iff of_int_numeral of_int_power)
  then have "(2::real) ^ 52 * ulp x \<le> to_double x"
    using pos ulp_pos [of x] by (simp add: to_double_def)
  moreover have "(2::real) ^ 52 * ulp x = 2 powr of_int e"
    unfolding u by (simp add: powr_diff powr_numeral [symmetric] del: powr_numeral)
  ultimately have "2 powr of_int e \<le> to_double x" by (simp only:)
  moreover have "2 powr of_int k \<le> (2::real) powr of_int e" using ke by simp
  ultimately show ?thesis by (rule order_trans [rotated])
qed

lemma pow2_neg: "(2::real) powr of_int (- int p) = 1 / 2 ^ p"
  by (simp add: powr_minus powr_realpow divide_simps)

lemma to_double_below_one:
  assumes "1 / 2 ^ j \<le> x" and "x < 2 / 2 ^ j" and "j \<le> 1022"
    and "rne (x * 2 ^ (j + 52)) = M"
  shows "to_double x = of_int M / 2 ^ (j + 52)"
proof -
  have a: "2 powr of_int (- int j) \<le> x" using assms(1) by (simp only: pow2_neg)
  have "(2::real) powr (of_int (- int j) + 1) = 2 powr of_int (- int j) * 2 powr 1"
    by (rule powr_add)
  then have "(2::real) powr of_int (- int j + 1) = 2 / 2 ^ j"
    by (simp only: pow2_neg) simp
  then have b: "x < 2 powr of_int (- int j + 1)" using assms(2) by simp
  have c: "- 1022 \<le> - int j" using assms(3) by simp
  have u: "(2::real) powr of_int (- int j - 52) = 1 / 2 ^ (j + 52)"
    using pow2_neg [of "j + 52"] by (simp add: algebra_simps)
  have "rne (x / 2 powr of_int (- int j - 52)) = M"
    using assms(4) by (simp only: u) (simp add: field_simps)
  from to_double_eqI [OF a b c this] show ?thesis by (simp only: u) simp
qed

lemma to_double_ge_below_one:
  assumes "1 / 2 ^ p \<le> x" and "p \<le> 1022"
  shows "1 / 2 ^ p \<le> to_double x"
  using to_double_ge_pow2 [of "- int p" x] assms by (simp only: pow2_neg)

lemma threshold_double: "to_double (1 / 100) = 5764607523034235 / 2 ^ 59"
proof -
  have "rne (1 / 100 * 2 ^ (7 + 52)) = 5764607523034235"
    by (rule rne_near) simp
  from to_double_below_one [OF _ _ _ this] show ?thesis by simp
qed

lemma rms_loop_nonneg: "0 \<le> acc \<Longrightarrow> 0 \<le> rms_loop b i acc"
proof (induction "length b - i" arbitrary: i acc)
  case 0
  then show ?case by (subst rms_loop.simps) simp
next
  case (Suc k)
  then have lt: "i < length b" by simp
  have "0 \<le> to_double (b ! i * b ! i)" by (rule to_double_nonneg) simp
  then have "0 \<le> to_double (acc + to_double (b ! i * b ! i))"
    using Suc.prems by (intro to_double_nonneg) simp
  then have "0 \<le> rms_loop b (i + 1) (to_double (acc + to_double (b ! i * b ! i)))"
    using Suc.hyps(2) by (intro Suc.hyps(1)) simp_all
  then show ?case using lt by (subst rms_loop.simps) simp
qed

lemma rms_loop_keeps:
  "p \<le> 1022 \<Longrightarrow> 1 / 2 ^ p \<le> acc \<Longrightarrow> 1 / 2 ^ p \<le> rms_loop b i acc"
proof (induction "length b - i" arbitrary: i acc)
  case 0
  then show ?case by (subst rms_loop.simps) simp
next
  case (Suc k)
  then have lt: "i < length b" by simp
  have "0 \<le> to_double (b ! i * b ! i)" by (rule to_double_nonneg) simp
  then have "1 / 2 ^ p \<le> acc + to_double (b ! i * b ! i)" using Suc.prems(2) by simp
  then have "1 / 2 ^ p \<le> to_double (acc + to_double (b ! i * b ! i))"
    using Suc.prems(1) by (intro to_double_ge_below_one)
  then have "1 / 2 ^ p \<le> rms_loop b (i + 1) (to_double (acc + to_double (b ! i * b ! i)))"
    using Suc.hyps(2) Suc.prems(1) by (intro Suc.hyps(1)) simp_all
  then show ?case using lt by (subst rms_loop.simps) simp
qed

lemma rms_loop_loud:
  "p \<le> 1022 \<Longrightarrow> 0 \<le> acc \<Longrightarrow> i \<le> j \<Longrightarrow> j < length b \<Longrightarrow>
   1 / 2 ^ p \<le> b ! j * b ! j \<Longrightarrow> 1 / 2 ^ p \<le> rms_loop b i acc"
proof (induction "j - i" arbitrary: i acc)
  case 0
  then have ij: "i = j" by simp
  have "1 / 2 ^ p \<le> to_double (b ! i * b ! i)"
    using 0 ij by (intro to_double_ge_below_one) simp_all
  then have "1 / 2 ^ p \<le> acc + to_double (b ! i * b ! i)" using "0.prems"(2) by simp
  then have "1 / 2 ^ p \<le> to_double (acc + to_double (b ! i * b ! i))"
    using "0.prems"(1) by (intro to_double_ge_below_one)
  then have "1 / 2 ^ p \<le> rms_loop b (i + 1) (to_double (acc + to_double (b ! i * b ! i)))"
    using "0.prems"(1) by (intro rms_loop_keeps)
  then show ?case using "0.prems"(4) ij by (subst rms_loop.simps) simp
next
  case (Suc k)
  then have lt: "i < j" "i < length b" by simp_all
  have "0 \<le> to_double (b ! i * b ! i)" by (rule to_double_nonneg) simp
  then have "0 \<le> to_double (acc + to_double (b ! i * b ! i))"
    using Suc.prems(2) by (intro to_double_nonneg) simp
  then have "1 / 2 ^ p \<le> rms_loop b (i + 1) (to_double (acc + to_double (b ! i * b ! i)))"
    using Suc.hyps(2) Suc.prems lt by (intro Suc.hyps(1)) simp_all
  then show ?case using lt by (subst rms_loop.simps) simp
qed

lemma loud_sample:
  assumes "x \<in> set b" and "1 / 2 ^ p \<le> x * x" and "real (length b) * 2 ^ p \<le> 4096"
  shows "\<not> too_quiet b"
proof -
  obtain j where j: "j < length b" "b ! j = x" using assms(1) by (auto simp: in_set_conv_nth)
  have n: "0 < real (length b)" using j(1) by (cases b) simp_all
  have "(2::real) ^ p \<le> 4096"
  proof -
    have "1 \<le> real (length b)" using j(1) by (cases b) simp_all
    then have "1 * (2::real) ^ p \<le> real (length b) * 2 ^ p"
      by (intro mult_right_mono) simp_all
    then show ?thesis using assms(3) by linarith
  qed
  then have p: "p \<le> 12"
  proof (rule contrapos_pp)
    assume "\<not> p \<le> 12"
    then have "13 \<le> p" by simp
    then have "(2::real) ^ 13 \<le> 2 ^ p" by (intro power_increasing) simp_all
    then show "\<not> (2::real) ^ p \<le> 4096" by simp
  qed
  have s: "1 / 2 ^ p \<le> rms_loop b 0 0"
    using p j assms(2) by (intro rms_loop_loud [of p 0 0 j]) simp_all
  have "1 / 4096 \<le> 1 / (real (length b) * 2 ^ p)"
    using assms(3) n by (intro divide_left_mono) simp_all
  also have "\<dots> = (1 / 2 ^ p) / real (length b)" by simp
  also have "\<dots> \<le> rms_loop b 0 0 / real (length b)"
    using s n by (intro divide_right_mono) simp_all
  finally have "1 / 2 ^ 12 \<le> rms_loop b 0 0 / real (length b)" by simp
  then have q: "1 / 2 ^ 12 \<le> to_double (rms_loop b 0 0 / real (length b))"
    by (intro to_double_ge_below_one) simp_all
  have "sqrt (1 / 2 ^ 12) = 1 / 2 ^ 6"
    by (rule real_sqrt_unique) (simp_all add: power2_eq_square)
  then have "1 / 2 ^ 6 \<le> sqrt (to_double (rms_loop b 0 0 / real (length b)))"
    using q real_sqrt_le_mono by metis
  then have "1 / 2 ^ 6 \<le> computed_rms b"
    unfolding computed_rms_def by (intro to_double_ge_below_one) simp_all
  then show ?thesis by (simp add: too_quiet_def threshold_double)
qed







lemma late_peak_run:
  shows "\<not> too_quiet late_peak"
    and "autocorrelation (trim late_peak) = [3, - 2, 1]"
    and "peak_position [3, - 2, 1] = 2"
proof -
  show "\<not> too_quiet late_peak"
    by (rule loud_sample [of 1 _ 0]) (simp_all add: late_peak_def)
  have "trim late_peak = [1, - 1, 1]"
    by (simp add: late_peak_def trim_def trim_bounds_def trim_loop.simps near_zero_def
        at_index_def js_slice_def)
  then show "autocorrelation (trim late_peak) = [3, - 2, 1]"
    by (simp add: autocorrelation_def acf_outer.simps acf_inner.simps)
  show "peak_position [3, - 2, 1] = 2"
    by (simp add: peak_position_def first_dip.simps peak_loop.simps js_greater_def at_index_def)
qed

lemma click_run:
  shows "\<not> too_quiet click"
    and "autocorrelation (trim click) = [0, 0]"
    and "peak_position [0, 0] = 0"
proof -
  show "\<not> too_quiet click"
    by (rule loud_sample [of 1 _ 0]) (simp_all add: click_def)
  have "trim click = [0, 0]"
    by (simp add: click_def trim_def trim_bounds_def trim_loop.simps near_zero_def
        at_index_def js_slice_def)
  then show "autocorrelation (trim click) = [0, 0]"
    by (simp add: autocorrelation_def acf_outer.simps acf_inner.simps)
  show "peak_position [0, 0] = 0"
    by (simp add: peak_position_def first_dip.simps peak_loop.simps js_greater_def at_index_def)
qed

text \<open>
  A peak at lag 0. A click followed by silence is trimmed to zeros, the peak search stays
  at lag 0, and \<^verbatim>\<open>round(audio.sampleRate / 0)\<close> is \<^verbatim>\<open>Infinity\<close>. The caller tests the result
  with \<^verbatim>\<open>if(frequency)\<close>, which \<^verbatim>\<open>Infinity\<close> passes.
\<close>

lemma acf2plus_click: "acf2plus 44100 click = JS_number Infinity"
  using click_run(1)
  by (simp add: acf2plus_def click_run(2,3) interpolate_def at_index_def js_divide_def
      js_round_def)

text \<open>
  C7, as stated, fails. On \<open>late_peak\<close> the peak is at the last lag, the neighbour
  \<^verbatim>\<open>c[maxPos + 1]\<close> is read outside the array, and a frequency is returned, not the value
  \<^verbatim>\<open>false\<close>.
\<close>

theorem acf2plus_peak_guard_counterexample:
  "\<not> too_quiet late_peak \<and>
   autocorrelation (trim late_peak) = [3, - 2, 1] \<and>
   peak_position [3, - 2, 1] = 2 \<and>
   at_index [3, - 2, 1] (2 + 1) = None \<and>
   acf2plus 44100 late_peak = JS_number (Number 22050)"
proof -
  have "acf2plus 44100 late_peak = JS_number (Number 22050)"
    using late_peak_run(1)
    by (simp add: acf2plus_def late_peak_run(2,3) interpolate_def at_index_def js_divide_def
        js_round_def)
  then show ?thesis
    using late_peak_run by (simp add: at_index_def)
qed

text \<open>
  C7, amended. With the peak at the last lag \<open>p \<ge> 1\<close>, \<^verbatim>\<open>acf2plus\<close> reads the neighbour
  \<^verbatim>\<open>c[p + 1]\<close> outside the array, which is \<^verbatim>\<open>undefined\<close>; the interpolation is skipped, the
  peak stays at \<open>p\<close>, and the result is the frequency \<^verbatim>\<open>round(sampleRate / p)\<close>. Nothing is
  said here about a peak at lag 0.
\<close>

theorem acf2plus_boundary_peak:
  assumes "\<not> too_quiet buffer" and "c = autocorrelation (trim buffer)"
    and "p = peak_position c" and "p = int (length c) - 1" and "1 \<le> p"
  shows "at_index c (p + 1) = None \<and>
         interpolate c p = real_of_int p \<and>
         acf2plus sampleRate buffer =
           JS_number (Number (of_int (round (sampleRate / of_int p))))"
proof -
  have n: "at_index c (p + 1) = None" using assms(4) by (simp add: at_index_def)
  then have i: "interpolate c p = real_of_int p"
    by (simp add: interpolate_def Let_def split: option.splits)
  then have "acf2plus sampleRate buffer =
      JS_number (Number (of_int (round (sampleRate / of_int p))))"
    using assms by (simp add: acf2plus_def Let_def js_divide_def js_round_def)
  then show ?thesis using n i by simp
qed

theorem acf2plus_boundary_peak_witness:
  "\<not> too_quiet late_peak \<and> autocorrelation (trim late_peak) = [3, - 2, 1] \<and>
   peak_position [3, - 2, 1] = 2 \<and> (2::int) = int (length [3, - 2, 1 :: real]) - 1 \<and>
   (1::int) \<le> 2 \<and> acf2plus 44100 late_peak = JS_number (Number 22050)"
proof -
  have h: "[3, - 2, 1] = autocorrelation (trim late_peak)" "2 = peak_position [3, - 2, 1]"
    using late_peak_run(2,3) by simp_all
  have f4: "(2::int) = int (length [3, - 2, 1 :: real]) - 1" by simp
  have f5: "(1::int) \<le> 2" by simp
  note t = acf2plus_boundary_peak [OF late_peak_run(1) h f4 f5, of 44100]
  have f6: "acf2plus 44100 late_peak = JS_number (Number 22050)"
    using t [THEN conjunct2, THEN conjunct2] by simp
  show ?thesis
    by (rule conjI [OF late_peak_run(1) conjI [OF late_peak_run(2)
          conjI [OF late_peak_run(3) conjI [OF f4 conjI [OF f5 f6]]]]])
qed

lemma front_step:
  assumes "front_known b i r1 f1" and "real i < real (length b) / 2"
    and "(r1', f1') = (if \<not> f1 \<and> near_zero b (int i) then (i, True) else (r1, f1))"
  shows "front_known b (i + 1) r1' f1'"
  using assms by (auto simp: front_known_def less_Suc_eq split: if_splits)

lemma back_step:
  assumes "back_known b i r2 f2" and "real i < real (length b) / 2"
    and "(r2', f2') = (if \<not> f2 \<and> near_zero b (int (length b) - int i)
                       then (int (length b) - int i, True) else (r2, f2))"
  shows "back_known b (i + 1) r2' f2'"
proof (cases "\<not> f2 \<and> near_zero b (int (length b) - int i)")
  case True
  then have "r2' = int (length b) - int i" "f2'" using assms(3) by simp_all
  moreover have "\<forall>j' < i. \<not> near_zero b (int (length b) - int j')"
    using assms(1) True by (simp add: back_known_def)
  ultimately show ?thesis using True assms(2) unfolding back_known_def by auto
next
  case False
  then have eq: "r2' = r2" "f2' = f2" using assms(3) by auto
  show ?thesis
  proof (cases f2)
    case True
    then show ?thesis using assms(1) eq by (simp add: back_known_def)
  next
    case nf: False
    then have "\<not> near_zero b (int (length b) - int i)" using False by simp
    then show ?thesis using assms(1) eq nf by (auto simp: back_known_def less_Suc_eq)
  qed
qed

lemma trim_loop_known:
  assumes "trim_loop b i (r1, f1, r2, f2) = (q1, g1, q2, g2)"
    and "front_known b i r1 f1" and "back_known b i r2 f2"
  shows "\<exists>m. front_known b m q1 g1 \<and> back_known b m q2 g2 \<and>
           (g1 \<and> g2 \<or> \<not> real m < real (length b) / 2)"
  using assms
proof (induction "length b - i" arbitrary: i r1 f1 r2 f2 rule: less_induct)
  case less
  show ?case
  proof (cases "real i < real (length b) / 2")
    case False
    then have "(q1, g1, q2, g2) = (r1, f1, r2, f2)"
      using less.prems(1) by (subst (asm) trim_loop.simps) simp
    then show ?thesis using less.prems(2,3) False by auto
  next
    case True
    obtain r1' f1' where s1:
      "(r1', f1') = (if \<not> f1 \<and> near_zero b (int i) then (i, True) else (r1, f1))"
      by (cases "if \<not> f1 \<and> near_zero b (int i) then (i, True) else (r1, f1)") auto
    obtain r2' f2' where s2:
      "(r2', f2') = (if \<not> f2 \<and> near_zero b (int (length b) - int i)
                       then (int (length b) - int i, True) else (r2, f2))"
      by (cases "if \<not> f2 \<and> near_zero b (int (length b) - int i)
                       then (int (length b) - int i, True) else (r2, f2)") auto
    note fk = front_step [OF less.prems(2) True s1]
    note bk = back_step [OF less.prems(3) True s2]
    have unf: "trim_loop b i (r1, f1, r2, f2) =
        (if f1' \<and> f2' then (r1', f1', r2', f2') else trim_loop b (i + 1) (r1', f1', r2', f2'))"
      using True s1 [symmetric] s2 [symmetric] by (subst trim_loop.simps) (simp add: Let_def)
    show ?thesis
    proof (cases "f1' \<and> f2'")
      case both: True
      have "trim_loop b i (r1, f1, r2, f2) = (r1', f1', r2', f2')"
        by (subst unf) (rule if_P [OF both])
      then have "(q1, g1, q2, g2) = (r1', f1', r2', f2')" using less.prems(1) by (simp only:)
      then show ?thesis using fk bk both by auto
    next
      case nb: False
      have "trim_loop b i (r1, f1, r2, f2) = trim_loop b (i + 1) (r1', f1', r2', f2')"
        by (subst unf) (rule if_not_P [OF nb])
      then have rec: "trim_loop b (i + 1) (r1', f1', r2', f2') = (q1, g1, q2, g2)"
        using less.prems(1) by (simp only:)
      have "length b - (i + 1) < length b - i" using True by simp
      from less.hyps [OF this rec fk bk] show ?thesis .
    qed
  qed
qed


lemma near_zero_nat: "k < length b \<Longrightarrow> near_zero b (int k) \<longleftrightarrow> \<bar>b ! k\<bar> < 1 / 5"
  by (simp add: near_zero_def at_index_def)

lemma near_zero_range:
  "near_zero b z \<Longrightarrow> 0 \<le> z \<and> z < int (length b) \<and> \<bar>b ! nat z\<bar> < 1 / 5"
  by (auto simp: near_zero_def at_index_def split: if_splits)

lemma trim_bounds_known:
  assumes "trim_bounds b = (q1, g1, q2, g2)"
  shows "\<exists>m. front_known b m q1 g1 \<and> back_known b m q2 g2 \<and>
           (g1 \<and> g2 \<or> \<not> real m < real (length b) / 2)"
proof (rule trim_loop_known)
  show "trim_loop b 0 (0, False, int (length b) - 1, False) = (q1, g1, q2, g2)"
    using assms by (simp add: trim_bounds_def)
  show "front_known b 0 0 False" by (simp add: front_known_def)
  show "back_known b 0 (int (length b) - 1) False" by (simp add: back_known_def)
qed

lemma front_result:
  assumes "front_known b m q1 g1" and "g1 \<or> \<not> real m < real (length b) / 2"
  shows "if g1 then real q1 < real (length b) / 2 \<and> \<bar>b ! q1\<bar> < 1 / 5 \<and>
              (\<forall>k < q1. 1 / 5 \<le> \<bar>b ! k\<bar>)
         else q1 = 0 \<and> (\<forall>k. real k < real (length b) / 2 \<longrightarrow> 1 / 5 \<le> \<bar>b ! k\<bar>)"
proof (cases g1)
  case True
  then have h: "real q1 < real (length b) / 2" "near_zero b (int q1)"
      "\<forall>k < q1. \<not> near_zero b (int k)"
    using assms(1) by (simp_all add: front_known_def)
  have q: "q1 < length b" using near_zero_range [OF h(2)] by simp
  have "\<bar>b ! q1\<bar> < 1 / 5" using h(2) near_zero_nat [OF q] by simp
  moreover have "\<forall>k < q1. 1 / 5 \<le> \<bar>b ! k\<bar>"
  proof (intro allI impI)
    fix k assume k: "k < q1"
    then have "k < length b" using q by simp
    then show "1 / 5 \<le> \<bar>b ! k\<bar>" using h(3) k near_zero_nat [of k b] by auto
  qed
  ultimately show ?thesis using True h(1) by simp
next
  case False
  then have h: "q1 = 0" "\<forall>k < m. \<not> near_zero b (int k)" "\<not> real m < real (length b) / 2"
    using assms by (simp_all add: front_known_def)
  have "\<forall>k. real k < real (length b) / 2 \<longrightarrow> 1 / 5 \<le> \<bar>b ! k\<bar>"
  proof (intro allI impI)
    fix k assume k: "real k < real (length b) / 2"
    then have "k < m" "k < length b" using h(3) by linarith+
    then show "1 / 5 \<le> \<bar>b ! k\<bar>" using h(2) near_zero_nat [of k b] by auto
  qed
  then show ?thesis using False h(1) by simp
qed

lemma back_result:
  assumes "back_known b m q2 g2" and "g2 \<or> \<not> real m < real (length b) / 2"
  shows "if g2 then real (length b) / 2 < real_of_int q2 \<and> q2 < int (length b) \<and>
              \<bar>b ! nat q2\<bar> < 1 / 5 \<and>
              (\<forall>k. q2 < int k \<and> k < length b \<longrightarrow> 1 / 5 \<le> \<bar>b ! k\<bar>)
         else q2 = int (length b) - 1 \<and>
              (\<forall>k. real (length b) / 2 < real k \<and> k < length b \<longrightarrow> 1 / 5 \<le> \<bar>b ! k\<bar>)"
proof (cases g2)
  case True
  then obtain j where h: "q2 = int (length b) - int j" "real j < real (length b) / 2"
      "near_zero b q2" "\<forall>j' < j. \<not> near_zero b (int (length b) - int j')"
    using assms(1) by (auto simp: back_known_def)
  note r = near_zero_range [OF h(3)]
  have "real (length b) / 2 < real_of_int q2" using h(1,2) by simp
  moreover have "\<forall>k. q2 < int k \<and> k < length b \<longrightarrow> 1 / 5 \<le> \<bar>b ! k\<bar>"
  proof (intro allI impI)
    fix k assume k: "q2 < int k \<and> k < length b"
    then have "length b - k < j" using h(1) by linarith
    then have "\<not> near_zero b (int (length b) - int (length b - k))" using h(4) by blast
    moreover have "int (length b) - int (length b - k) = int k" using k by simp
    ultimately show "1 / 5 \<le> \<bar>b ! k\<bar>" using k near_zero_nat [of k b] by auto
  qed
  ultimately show ?thesis using True r by simp
next
  case False
  then have h: "q2 = int (length b) - 1"
      "\<forall>j < m. \<not> near_zero b (int (length b) - int j)" "\<not> real m < real (length b) / 2"
    using assms by (simp_all add: back_known_def)
  have "\<forall>k. real (length b) / 2 < real k \<and> k < length b \<longrightarrow> 1 / 5 \<le> \<bar>b ! k\<bar>"
  proof (intro allI impI)
    fix k assume k: "real (length b) / 2 < real k \<and> k < length b"
    then have "real (length b - k) < real (length b) / 2" by (simp add: of_nat_diff)
    then have "length b - k < m" using h(3) by linarith
    then have "\<not> near_zero b (int (length b) - int (length b - k))" using h(2) by blast
    moreover have "int (length b) - int (length b - k) = int k" using k by simp
    ultimately show "1 / 5 \<le> \<bar>b ! k\<bar>" using k near_zero_nat [of k b] by auto
  qed
  then show ?thesis using False h(1) by simp
qed

lemma loud_ends_run:
  shows "trim_bounds loud_ends = (1, True, 4, True)"
    and "trim loud_ends = [1 / 10, 1 / 2, 1 / 2]"
    and "\<not> too_quiet loud_ends"
proof -
  show 1: "trim_bounds loud_ends = (1, True, 4, True)"
    by (simp add: loud_ends_def trim_bounds_def trim_loop.simps near_zero_def at_index_def)
  show "trim loud_ends = [1 / 10, 1 / 2, 1 / 2]"
    unfolding trim_def 1 by (simp add: loud_ends_def js_slice_def)
  show "\<not> too_quiet loud_ends"
    by (rule loud_sample [of "1 / 2" _ 2]) (simp_all add: loud_ends_def)
qed

lemma quiet_ends_run:
  shows "trim quiet_ends = [1 / 10, 1 / 10, 1 / 2, 1 / 2, 1 / 10]"
    and "\<not> too_quiet quiet_ends"
proof -
  have 1: "trim_bounds quiet_ends = (0, True, 5, True)"
    by (simp add: quiet_ends_def trim_bounds_def trim_loop.simps near_zero_def at_index_def)
  show "trim quiet_ends = [1 / 10, 1 / 10, 1 / 2, 1 / 2, 1 / 10]"
    unfolding trim_def 1 by (simp add: quiet_ends_def js_slice_def)
  show "\<not> too_quiet quiet_ends"
    by (rule loud_sample [of "1 / 2" _ 2]) (simp_all add: quiet_ends_def)
qed

text \<open>
  C8, as stated, fails. \<open>loud_ends\<close> has no sample below 0.2 at either end, yet the code
  removes its first sample and its last two; \<open>quiet_ends\<close> has two samples below 0.2 at
  each end, and the code keeps both at the front and one at the back.
\<close>

theorem acf2plus_trimming_counterexample:
  "\<not> too_quiet loud_ends \<and>
   trim loud_ends = [1 / 10, 1 / 2, 1 / 2] \<and>
   trim_as_specified loud_ends = [1 / 2, 1 / 10, 1 / 2, 1 / 2, 1 / 10, 1 / 2] \<and>
   trim loud_ends \<noteq> trim_as_specified loud_ends \<and>
   \<not> too_quiet quiet_ends \<and>
   trim quiet_ends = [1 / 10, 1 / 10, 1 / 2, 1 / 2, 1 / 10] \<and>
   trim_as_specified quiet_ends = [1 / 2, 1 / 2] \<and>
   trim quiet_ends \<noteq> trim_as_specified quiet_ends"
proof -
  have a: "trim_as_specified loud_ends = [1 / 2, 1 / 10, 1 / 2, 1 / 2, 1 / 10, 1 / 2]"
    by (simp add: trim_as_specified_def loud_ends_def)
  have b: "trim_as_specified quiet_ends = [1 / 2, 1 / 2]"
    by (simp add: trim_as_specified_def quiet_ends_def)
  show ?thesis
    unfolding a b loud_ends_run(2) quiet_ends_run(1)
    using loud_ends_run(3) quiet_ends_run(2) by simp
qed

text \<open>
  C8, amended. After the RMS check \<^verbatim>\<open>acf2plus\<close> goes on with \<^verbatim>\<open>buffer.slice(r1, r2)\<close>.
  \<open>r1\<close> is the index of the first sample of the first half that is below 0.2 in absolute
  value, so the samples removed at the front are all at least 0.2 and the first sample
  below 0.2 is kept; with no such sample \<open>r1\<close> is 0. \<open>r2\<close> is the index of the last sample
  of the second half that is below 0.2, so that sample and the samples after it, all at
  least 0.2, are removed; with no such sample \<open>r2\<close> is the last index, and the last sample
  alone is removed.
\<close>

theorem acf2plus_trimming:
  assumes "trim_bounds buffer = (r1, r1Found, r2, r2Found)"
  shows "trim buffer = js_slice buffer (int r1) r2 \<and>
     (if r1Found
      then real r1 < real (length buffer) / 2 \<and> \<bar>buffer ! r1\<bar> < 1 / 5 \<and>
           (\<forall>k < r1. 1 / 5 \<le> \<bar>buffer ! k\<bar>)
      else r1 = 0 \<and> (\<forall>k. real k < real (length buffer) / 2 \<longrightarrow> 1 / 5 \<le> \<bar>buffer ! k\<bar>)) \<and>
     (if r2Found
      then real (length buffer) / 2 < real_of_int r2 \<and> r2 < int (length buffer) \<and>
           \<bar>buffer ! nat r2\<bar> < 1 / 5 \<and>
           (\<forall>k. r2 < int k \<and> k < length buffer \<longrightarrow> 1 / 5 \<le> \<bar>buffer ! k\<bar>)
      else r2 = int (length buffer) - 1 \<and>
           (\<forall>k. real (length buffer) / 2 < real k \<and> k < length buffer \<longrightarrow>
                1 / 5 \<le> \<bar>buffer ! k\<bar>)) \<and>
     (\<not> too_quiet buffer \<longrightarrow>
        acf2plus sampleRate buffer =
          JS_number (js_round (js_divide sampleRate
            (interpolate (autocorrelation (trim buffer))
               (peak_position (autocorrelation (trim buffer)))))))"
proof -
  obtain m where m: "front_known buffer m r1 r1Found" "back_known buffer m r2 r2Found"
      "r1Found \<and> r2Found \<or> \<not> real m < real (length buffer) / 2"
    using trim_bounds_known [OF assms] by blast
  have 1: "trim buffer = js_slice buffer (int r1) r2" using assms by (simp add: trim_def)
  have 2: "if r1Found
      then real r1 < real (length buffer) / 2 \<and> \<bar>buffer ! r1\<bar> < 1 / 5 \<and>
           (\<forall>k < r1. 1 / 5 \<le> \<bar>buffer ! k\<bar>)
      else r1 = 0 \<and> (\<forall>k. real k < real (length buffer) / 2 \<longrightarrow> 1 / 5 \<le> \<bar>buffer ! k\<bar>)"
    using m(3) by (intro front_result [OF m(1)]) blast
  have 3: "if r2Found
      then real (length buffer) / 2 < real_of_int r2 \<and> r2 < int (length buffer) \<and>
           \<bar>buffer ! nat r2\<bar> < 1 / 5 \<and>
           (\<forall>k. r2 < int k \<and> k < length buffer \<longrightarrow> 1 / 5 \<le> \<bar>buffer ! k\<bar>)
      else r2 = int (length buffer) - 1 \<and>
           (\<forall>k. real (length buffer) / 2 < real k \<and> k < length buffer \<longrightarrow>
                1 / 5 \<le> \<bar>buffer ! k\<bar>)"
    using m(3) by (intro back_result [OF m(2)]) blast
  have 4: "\<not> too_quiet buffer \<longrightarrow>
        acf2plus sampleRate buffer =
          JS_number (js_round (js_divide sampleRate
            (interpolate (autocorrelation (trim buffer))
               (peak_position (autocorrelation (trim buffer))))))"
    by (simp add: acf2plus_def Let_def)
  show ?thesis using 1 2 3 4 by (intro conjI)
qed

theorem acf2plus_trimming_witness:
  "trim_bounds loud_ends = (1, True, 4, True) \<and>
   trim loud_ends = js_slice loud_ends 1 4 \<and>
   \<bar>loud_ends ! 1\<bar> < 1 / 5 \<and> \<bar>loud_ends ! 4\<bar> < 1 / 5"
proof -
  note t = acf2plus_trimming [OF loud_ends_run(1), of 44100]
  have "trim loud_ends = js_slice loud_ends 1 4" using t [THEN conjunct1] by simp
  moreover have "\<bar>loud_ends ! 1\<bar> < 1 / 5" using t [THEN conjunct2, THEN conjunct1] by simp
  moreover have "\<bar>loud_ends ! 4\<bar> < 1 / 5"
    using t [THEN conjunct2, THEN conjunct2, THEN conjunct1] by simp
  ultimately show ?thesis using loud_ends_run(1) by blast
qed







section \<open>The frame loop and the mouse\<close>

lemma wrist_props:
  assumes w: "wrist from k saved save s = (painted, s')" and "from \<noteq> Mouse"
    and lm: "\<And>p t. lastMouse (save p t) = lastMouse t"
  shows "lastMouse s' = lastMouse s" and "(Mouse, p) \<notin> set painted"
  using w assms(2) lm [of "position k" s] by (auto simp: wrist_def split: if_splits)

lemma draw_mouse:
  "(Mouse, p) \<in> set (fst (draw s)) \<longleftrightarrow>
     poses s = [] \<and> 0 < fst (lastMouse s) \<and> 0 < snd (lastMouse s) \<and> p = lastMouse s"
proof (cases "poses s = []")
  case True
  then show ?thesis by (auto simp: draw_def)
next
  case False
  obtain e1 s1 where w1: "wrist Left_wrist (leftWrist (hd (poses s))) lastLeft
      (\<lambda>p t. t\<lparr>lastLeft := p\<rparr>) s = (e1, s1)"
    by (cases "wrist Left_wrist (leftWrist (hd (poses s))) lastLeft (\<lambda>p t. t\<lparr>lastLeft := p\<rparr>) s")
  obtain e2 s2 where w2: "wrist Right_wrist (rightWrist (hd (poses s))) lastRight
      (\<lambda>p t. t\<lparr>lastRight := p\<rparr>) s1 = (e2, s2)"
    by (cases "wrist Right_wrist (rightWrist (hd (poses s))) lastRight (\<lambda>p t. t\<lparr>lastRight := p\<rparr>) s1")
  have "fst (draw s) = e1 @ e2" using False w1 w2 by (simp add: draw_def)
  moreover have "(Mouse, p) \<notin> set e1" using wrist_props(2) [OF w1] by simp
  moreover have "(Mouse, p) \<notin> set e2" using wrist_props(2) [OF w2] by simp
  ultimately show ?thesis using False by simp
qed

lemma draw_keeps_mouse:
  assumes "\<not> (0 < fst (lastMouse s) \<and> 0 < snd (lastMouse s))"
  shows "lastMouse (snd (draw s)) = lastMouse s"
proof (cases "poses s = []")
  case True
  then show ?thesis using assms by (auto simp: draw_def)
next
  case False
  obtain e1 s1 where w1: "wrist Left_wrist (leftWrist (hd (poses s))) lastLeft
      (\<lambda>p t. t\<lparr>lastLeft := p\<rparr>) s = (e1, s1)"
    by (cases "wrist Left_wrist (leftWrist (hd (poses s))) lastLeft (\<lambda>p t. t\<lparr>lastLeft := p\<rparr>) s")
  obtain e2 s2 where w2: "wrist Right_wrist (rightWrist (hd (poses s))) lastRight
      (\<lambda>p t. t\<lparr>lastRight := p\<rparr>) s1 = (e2, s2)"
    by (cases "wrist Right_wrist (rightWrist (hd (poses s))) lastRight (\<lambda>p t. t\<lparr>lastRight := p\<rparr>) s1")
  have "snd (draw s) = s2" using False w1 w2 by (simp add: draw_def)
  moreover have "lastMouse s1 = lastMouse s" using wrist_props(1) [OF w1] by simp
  moreover have "lastMouse s2 = lastMouse s1" using wrist_props(1) [OF w2] by simp
  ultimately show ?thesis by simp
qed

lemma frames_no_mouse:
  assumes "\<not> (0 < fst (lastMouse s) \<and> 0 < snd (lastMouse s))"
  shows "(\<forall>p. (Mouse, p) \<notin> set (fst (frames pss s))) \<and>
         lastMouse (snd (frames pss s)) = lastMouse s"
  using assms
proof (induction pss arbitrary: s)
  case Nil
  then show ?case by simp
next
  case (Cons ps pss)
  define t where "t = s\<lparr>poses := ps\<rparr>"
  have nt: "\<not> (0 < fst (lastMouse t) \<and> 0 < snd (lastMouse t))"
    using Cons.prems by (simp add: t_def)
  obtain e1 s1 where d: "draw t = (e1, s1)" by (cases "draw t")
  have k: "lastMouse s1 = lastMouse s" using draw_keeps_mouse [OF nt] d by (simp add: t_def)
  have e1: "\<forall>p. (Mouse, p) \<notin> set e1"
  proof
    fix p show "(Mouse, p) \<notin> set e1" using draw_mouse [of p t] nt d by auto
  qed
  obtain e2 s2 where f: "frames pss s1 = (e2, s2)" by (cases "frames pss s1")
  have "(\<forall>p. (Mouse, p) \<notin> set e2) \<and> lastMouse s2 = lastMouse s1"
    using Cons.IH [of s1] Cons.prems k f by simp
  moreover have "frames (ps # pss) s = (e1 @ e2, s2)"
    using d f by (simp add: t_def)
  ultimately show ?case using e1 k by simp
qed

text \<open>
  C10 (mouse at the edge). \<^verbatim>\<open>draw\<close> paints from the saved mouse position exactly when no
  pose is known and both saved coordinates are above 0. A mouse position inside the bounds
  with \<open>x = 0\<close> or \<open>y = 0\<close> is saved by \<^verbatim>\<open>saveMouse\<close>, and then no frame paints from the
  mouse, whatever poses are reported; the position stays saved.
\<close>

theorem draw_mouse_edge:
  "(\<forall>p. (Mouse, p) \<in> set (fst (draw s)) \<longleftrightarrow>
      poses s = [] \<and> 0 < fst (lastMouse s) \<and> 0 < snd (lastMouse s) \<and> p = lastMouse s) \<and>
   (mx \<le> innerWidth \<and> my \<le> innerHeight - spacing \<and> (mx = 0 \<or> my = 0) \<longrightarrow>
      lastMouse (saveMouse innerWidth innerHeight spacing (mx, my) s) = (mx, my) \<and>
      (\<forall>reports.
         (\<forall>p. (Mouse, p) \<notin>
            set (fst (frames reports (saveMouse innerWidth innerHeight spacing (mx, my) s)))) \<and>
         lastMouse (snd (frames reports (saveMouse innerWidth innerHeight spacing (mx, my) s)))
           = (mx, my)))"
proof (intro conjI impI)
  show "\<forall>p. (Mouse, p) \<in> set (fst (draw s)) \<longleftrightarrow>
      poses s = [] \<and> 0 < fst (lastMouse s) \<and> 0 < snd (lastMouse s) \<and> p = lastMouse s"
    using draw_mouse by blast
next
  assume h: "mx \<le> innerWidth \<and> my \<le> innerHeight - spacing \<and> (mx = 0 \<or> my = 0)"
  let ?t = "saveMouse innerWidth innerHeight spacing (mx, my) s"
  show lm: "lastMouse ?t = (mx, my)" using h by (simp add: saveMouse_def)
  have n: "\<not> (0 < fst (lastMouse ?t) \<and> 0 < snd (lastMouse ?t))" using h lm by auto
  show "\<forall>reports. (\<forall>p. (Mouse, p) \<notin> set (fst (frames reports ?t))) \<and>
      lastMouse (snd (frames reports ?t)) = (mx, my)"
    using frames_no_mouse [OF n] lm by simp
qed

theorem draw_mouse_edge_witness:
  "(0::real) \<le> 1300 \<and> (250::real) \<le> 800 - 100 \<and>
   lastMouse (saveMouse 1300 800 100 (0, 250) initial_ui) = (0, 250) \<and>
   fst (frames [[], []] (saveMouse 1300 800 100 (0, 250) initial_ui)) = [] \<and>
   lastMouse (snd (frames [[], []] (saveMouse 1300 800 100 (0, 250) initial_ui))) = (0, 250) \<and>
   fst (draw (saveMouse 1300 800 100 (5, 250) initial_ui)) = [(Mouse, (5, 250))]"
proof -
  note t = draw_mouse_edge [of initial_ui 0 1300 250 800 100, THEN conjunct2, rule_format]
  have h: "(0::real) \<le> 1300 \<and> (250::real) \<le> 800 - 100 \<and> ((0::real) = 0 \<or> (250::real) = 0)"
    by simp
  have 1: "lastMouse (saveMouse 1300 800 100 (0, 250) initial_ui) = (0, 250)"
    using t [OF h] by blast
  have 2: "lastMouse (snd (frames [[], []] (saveMouse 1300 800 100 (0, 250) initial_ui))) = (0, 250)"
    using t [OF h] by blast
  have 3: "fst (frames [[], []] (saveMouse 1300 800 100 (0, 250) initial_ui)) = []"
    by (simp add: saveMouse_def initial_ui_def draw_def)
  have 4: "fst (draw (saveMouse 1300 800 100 (5, 250) initial_ui)) = [(Mouse, (5, 250))]"
    by (simp add: saveMouse_def initial_ui_def draw_def)
  show ?thesis using 1 2 3 4 by simp
qed

end
